theory Spec2Isabelle
  imports Main "HOL-Library.Finite_Map"
begin

section \<open>The TTL cache of ts-mongodb\<close>

text \<open>
  The class \<open>Cache<T>\<close> (\<open>cache.ts\<close>, compiled to \<open>cache.js\<close>) keeps a
  \<open>Map<string, [number, T]>\<close> from keys to pairs (expiration, value) and an array
  \<open>list\<close> of pairs (expiration, key), one per call of \<open>set\<close>, in call order.

  Conventions of the embedding.
  \<^item> The code is embedded twice. The first embedding is the code on integers: a \<open>Date\<close>
    is the integer it holds (\<open>valueOf()\<close>, milliseconds), and \<open>ttl\<close>, \<open>capacity\<close> and
    \<open>interval\<close> are integers (\<open>int\<close>). The second, whose names end in \<open>_n\<close>, is the
    same code on the numbers of JavaScript, with fractions and \<open>NaN\<close>, the value of an
    invalid \<open>Date\<close>. On integers the two agree (\<open>new_of\<close>, \<open>exec_of\<close>,
    \<open>run_of\<close>). A property that depends on what the code does with a fraction or with
    \<open>NaN\<close> is stated on the second.
  \<^item> The optional parameter \<open>time?: Date\<close> is resolved by the caller of the model: every
    operation takes \<open>now\<close>, which is \<open>time\<close> when supplied and the clock reading
    \<open>new Date()\<close> otherwise.
  \<^item> A value of type \<open>T\<close>, which TypeScript lets include \<open>null\<close> and \<open>undefined\<close>, is
    a \<open>'v option\<close>: \<open>Some x\<close> is a value that is neither, and \<open>None\<close> stands for
    \<open>undefined\<close> and \<open>null\<close> alike. So \<open>get\<close>, of type \<open>T | undefined\<close>, returns a
    \<open>'v option\<close> too.
  \<^item> \<open>Map.get\<close> returns the pair stored or \<open>undefined\<close>: an \<open>option\<close> of the pair. A
    pair is never nil, so \<open>!isNil(item)\<close> on the result of \<open>Map.get\<close> is the case
    \<open>Some item\<close>.
  \<^item> The \<open>Map\<close> is a finite map; \<open>map.size\<close> is the number of its keys.
  \<^item> A method mutates \<open>this\<close>: the model takes the cache and returns the new one beside
    the result. \<open>assert\<close> throws \<open>AssertionError\<close>; the mutations made before the throw
    stay, so a failing operation returns its error and the cache as the throw left it.
\<close>

subsection \<open>Data\<close>

datatype error = AssertionError

record options =
  opt_ttl :: int
  opt_capacity :: int
  opt_interval :: "int option"

type_synonym 'v entries = "(string, int \<times> 'v option) fmap"

type_synonym ledger = "(int \<times> string) list"

record 'v cache =
  ttl :: int
  capacity :: int
  interval :: int
  last_c :: "int option"
  map_c :: "'v entries"
  list_c :: ledger

text \<open>
  Modelled from the spec: \<open>isNil\<close>, which the class imports from \<open>util.js\<close>, a file that
  is not among the sources. The spec reads \<open>isNil(this.get(key, now))\<close> as "\<open>get\<close> returns
  nothing", the absent result; with \<open>None\<close> for \<open>undefined\<close> and \<open>null\<close> that is
  \<open>x = None\<close>.
\<close>

definition isNil :: "'a option \<Rightarrow> bool" where
  [simp]: "isNil x = (x = None)"

text \<open>\<open>map.size\<close>\<close>

definition map_size :: "'v entries \<Rightarrow> nat" where
  "map_size m = fcard (fmdom m)"

subsection \<open>Operations\<close>

text \<open>
  \<open>constructor({ ttl, capacity, interval })\<close>: the field initialisers give the empty map
  and list, \<open>last\<close> stays undefined.
\<close>

definition new :: "options \<Rightarrow> error + 'v cache" where
  "new opts =
     (if opt_ttl opts > 0 \<and> opt_capacity opts > 0
      then Inr \<lparr> ttl = opt_ttl opts,
                 capacity = opt_capacity opts,
                 interval = (case opt_interval opts of None \<Rightarrow> 10000 | Some i \<Rightarrow> i),
                 last_c = None,
                 map_c = fmempty,
                 list_c = [] \<rparr>
      else Inl AssertionError)"

text \<open>\<open>isFull()\<close>: \<open>this.map.size >= this.capacity\<close>\<close>

definition isFull :: "'v cache \<Rightarrow> bool" where
  "isFull c = (int (map_size (map_c c)) \<ge> capacity c)"

text \<open>
  The body shared by the loop of \<open>scrub\<close> and that of \<open>evict\<close>, for the ledger entry
  \<open>[expiration, key]\<close>:
  \<^verbatim>\<open>const value = this.map.get(key)
if (!isNil(value) && value[0] === expiration) this.map.delete(key)\<close>
\<close>

definition purge :: "int \<times> string \<Rightarrow> 'v entries \<Rightarrow> 'v entries" where
  "purge item m =
     (case item of (expiration, key) \<Rightarrow>
        (case fmlookup m key of
           None \<Rightarrow> m
         | Some val \<Rightarrow> if fst val = expiration then fmdrop key m else m))"

text \<open>
  The loop of \<open>scrub\<close>. \<open>this.list[size]\<close> for \<open>size = 0, 1, ...\<close> walks the list from its
  front, and \<open>this.list.splice(0, size)\<close> after the loop drops what was walked: the
  function takes the part of the list not yet walked and returns the map and the part that
  stays. The loop ends at the end of the list or at the first entry with
  \<open>expiration > timestamp\<close>.
\<close>

fun scrub_loop :: "int \<Rightarrow> 'v entries \<Rightarrow> ledger \<Rightarrow> 'v entries \<times> ledger" where
  "scrub_loop timestamp m [] = (m, [])"
| "scrub_loop timestamp m ((expiration, key) # rest) =
     (if expiration > timestamp then (m, (expiration, key) # rest)
      else scrub_loop timestamp (purge (expiration, key) m) rest)"

text \<open>\<open>scrub(time)\<close>; an undefined \<open>last\<close> counts as 0.\<close>

definition scrub :: "int \<Rightarrow> 'v cache \<Rightarrow> 'v cache" where
  "scrub now c =
     (if now - (case last_c c of None \<Rightarrow> 0 | Some l \<Rightarrow> l) < interval c then c
      else (case scrub_loop now (map_c c) (list_c c) of
              (m, l) \<Rightarrow> c\<lparr> map_c := m, list_c := l, last_c := Some now \<rparr>))"

text \<open>
  The loop of \<open>evict\<close> runs while \<open>this.isFull()\<close>. Past the end of the list,
  \<open>this.list[size]\<close> is undefined and \<open>assert(!isNil(item))\<close> throws: the result is
  \<open>None\<close> beside the cache with the deletions made so far (the list is not spliced then).
  Otherwise it is the part of the list that stays.
\<close>

fun evict_loop :: "'v cache \<Rightarrow> ledger \<Rightarrow> 'v cache \<times> ledger option" where
  "evict_loop c [] = (if isFull c then (c, None) else (c, Some []))"
| "evict_loop c ((expiration, key) # rest) =
     (if isFull c
      then evict_loop (c\<lparr> map_c := purge (expiration, key) (map_c c) \<rparr>) rest
      else (c, Some ((expiration, key) # rest)))"

definition evict :: "'v cache \<Rightarrow> (error + unit) \<times> 'v cache" where
  "evict c =
     (case evict_loop c (list_c c) of
        (c', None) \<Rightarrow> (Inl AssertionError, c')
      | (c', Some rest) \<Rightarrow> (Inr (), c'\<lparr> list_c := rest \<rparr>))"

text \<open>\<open>get(key, time)\<close>\<close>

definition get :: "string \<Rightarrow> int \<Rightarrow> 'v cache \<Rightarrow> 'v option \<times> 'v cache" where
  "get key now c0 =
     (let c = scrub now c0 in
      case fmlookup (map_c c) key of
        None \<Rightarrow> (None, c)
      | Some item \<Rightarrow>
          if fst item > now then (snd item, c)
          else (None, c\<lparr> map_c := fmdrop key (map_c c) \<rparr>))"

text \<open>
  \<open>set(key, value, time)\<close>. \<open>this.get(key, now)\<close> is called only when the map is full
  (\<open>&&\<close>), and \<open>evict\<close> only when what that call returns is nil. The method returns
  \<open>this\<close>: the cache of the result.
\<close>

definition set_c :: "string \<Rightarrow> 'v option \<Rightarrow> int \<Rightarrow> 'v cache \<Rightarrow> (error + unit) \<times> 'v cache" where
  "set_c key val now c0 =
     (let c1 = scrub now c0;
          (r, c2) = (if isFull c1
                     then (case get key now c1 of
                             (got, c) \<Rightarrow> if isNil got then evict c else (Inr (), c))
                     else (Inr (), c1))
      in case r of
           Inl e \<Rightarrow> (Inl e, c2)
         | Inr _ \<Rightarrow>
             (let expiration = now + ttl c2
              in (Inr (), c2\<lparr> map_c := fmupd key (expiration, val) (map_c c2),
                              list_c := list_c c2 @ [(expiration, key)] \<rparr>)))"

subsection \<open>Sequences of calls\<close>

datatype 'v op = Set string "'v option" int | Get string int | IsFull | Scrub int | Evict

datatype 'v reply = Self | Got "'v option" | Full bool | Void

fun exec :: "'v op \<Rightarrow> 'v cache \<Rightarrow> (error + 'v reply) \<times> 'v cache" where
  "exec (Set key val now) c =
     (case set_c key val now c of
        (Inl e, c') \<Rightarrow> (Inl e, c')
      | (Inr _, c') \<Rightarrow> (Inr Self, c'))"
| "exec (Get key now) c = (case get key now c of (r, c') \<Rightarrow> (Inr (Got r), c'))"
| "exec IsFull c = (Inr (Full (isFull c)), c)"
| "exec (Scrub now) c = (Inr Void, scrub now c)"
| "exec Evict c =
     (case evict c of
        (Inl e, c') \<Rightarrow> (Inl e, c')
      | (Inr _, c') \<Rightarrow> (Inr Void, c'))"

text \<open>
  The cache after a sequence of calls. A call that throws leaves the cache as the throw
  found it, and the caller may go on using it.
\<close>

fun run :: "'v op list \<Rightarrow> 'v cache \<Rightarrow> 'v cache" where
  "run [] c = c"
| "run (x # xs) c = run xs (snd (exec x c))"

text \<open>
  The correspondence of map and ledger: every entry of the map, \<open>key \<mapsto> (expiration, value)\<close>,
  has its ledger entry \<open>(expiration, key)\<close> in the list.
\<close>

definition ledger_covers :: "'v entries \<Rightarrow> ledger \<Rightarrow> bool" where
  "ledger_covers m l = fmpred (\<lambda>key item. (fst item, key) \<in> set l) m"

subsection \<open>The cache on JavaScript numbers\<close>

text \<open>
  The definitions above take every number for an integer and every \<open>Date\<close> for a valid one.
  The code takes more: \<open>ttl\<close>, \<open>capacity\<close> and \<open>interval\<close> are of type \<open>number\<close>, which has
  fractions and \<open>NaN\<close>, and \<open>valueOf()\<close> of an invalid \<open>Date\<close> is \<open>NaN\<close>. The definitions
  below are the same code on such numbers: a \<open>number\<close> is \<open>NaN\<close> or a rational (arithmetic
  is exact: the rounding of doubles and the infinities are left out). As in JavaScript, a
  sum or difference with \<open>NaN\<close> is \<open>NaN\<close>, and \<open><\<close>, \<open>>\<close>, \<open><=\<close>, \<open>>=\<close> and \<open>===\<close> with
  \<open>NaN\<close> on either side are false.
\<close>

datatype number = NaN | Num rat

instantiation number :: "{plus, minus, ord}"
begin

definition plus_number :: "number \<Rightarrow> number \<Rightarrow> number" where
  "plus_number a b = (case (a, b) of (Num x, Num y) \<Rightarrow> Num (x + y) | _ \<Rightarrow> NaN)"

definition minus_number :: "number \<Rightarrow> number \<Rightarrow> number" where
  "minus_number a b = (case (a, b) of (Num x, Num y) \<Rightarrow> Num (x - y) | _ \<Rightarrow> NaN)"

definition less_number :: "number \<Rightarrow> number \<Rightarrow> bool" where
  "less_number a b = (case (a, b) of (Num x, Num y) \<Rightarrow> x < y | _ \<Rightarrow> False)"

definition less_eq_number :: "number \<Rightarrow> number \<Rightarrow> bool" where
  "less_eq_number a b = (case (a, b) of (Num x, Num y) \<Rightarrow> x \<le> y | _ \<Rightarrow> False)"

instance ..

end

text \<open>\<open>a === b\<close> on numbers\<close>

definition strict_eq :: "number \<Rightarrow> number \<Rightarrow> bool" where
  "strict_eq a b = (case (a, b) of (Num x, Num y) \<Rightarrow> x = y | _ \<Rightarrow> False)"

record options_n =
  ttl_opt :: number
  capacity_opt :: number
  interval_opt :: "number option"

type_synonym 'v entries_n = "(string, number \<times> 'v option) fmap"

type_synonym ledger_n = "(number \<times> string) list"

record 'v cache_n =
  ttl_n :: number
  capacity_n :: number
  interval_n :: number
  last_n :: "number option"
  map_n :: "'v entries_n"
  list_n :: ledger_n

definition map_size_n :: "'v entries_n \<Rightarrow> nat" where
  "map_size_n m = fcard (fmdom m)"

text \<open>
  \<open>assert(ttl > 0 && capacity > 0)\<close> fails for \<open>NaN\<close> too. \<open>interval ?? 10000\<close> keeps a
  \<open>NaN\<close> interval.
\<close>

definition new_n :: "options_n \<Rightarrow> error + 'v cache_n" where
  "new_n opts =
     (if ttl_opt opts > Num 0 \<and> capacity_opt opts > Num 0
      then Inr \<lparr> ttl_n = ttl_opt opts,
                 capacity_n = capacity_opt opts,
                 interval_n = (case interval_opt opts of None \<Rightarrow> Num 10000 | Some i \<Rightarrow> i),
                 last_n = None,
                 map_n = fmempty,
                 list_n = [] \<rparr>
      else Inl AssertionError)"

definition isFull_n :: "'v cache_n \<Rightarrow> bool" where
  "isFull_n c = (Num (of_nat (map_size_n (map_n c))) \<ge> capacity_n c)"

definition purge_n :: "number \<times> string \<Rightarrow> 'v entries_n \<Rightarrow> 'v entries_n" where
  "purge_n item m =
     (case item of (expiration, key) \<Rightarrow>
        (case fmlookup m key of
           None \<Rightarrow> m
         | Some val \<Rightarrow> if strict_eq (fst val) expiration then fmdrop key m else m))"

fun scrub_loop_n :: "number \<Rightarrow> 'v entries_n \<Rightarrow> ledger_n \<Rightarrow> 'v entries_n \<times> ledger_n" where
  "scrub_loop_n timestamp m [] = (m, [])"
| "scrub_loop_n timestamp m ((expiration, key) # rest) =
     (if expiration > timestamp then (m, (expiration, key) # rest)
      else scrub_loop_n timestamp (purge_n (expiration, key) m) rest)"

text \<open>
  \<open>this.last?.valueOf() ?? 0\<close> is 0 for an undefined \<open>last\<close> and \<open>NaN\<close> for an invalid
  \<open>Date\<close>.
\<close>

definition scrub_n :: "number \<Rightarrow> 'v cache_n \<Rightarrow> 'v cache_n" where
  "scrub_n now c =
     (if now - (case last_n c of None \<Rightarrow> Num 0 | Some l \<Rightarrow> l) < interval_n c then c
      else (case scrub_loop_n now (map_n c) (list_n c) of
              (m, l) \<Rightarrow> c\<lparr> map_n := m, list_n := l, last_n := Some now \<rparr>))"

fun evict_loop_n :: "'v cache_n \<Rightarrow> ledger_n \<Rightarrow> 'v cache_n \<times> ledger_n option" where
  "evict_loop_n c [] = (if isFull_n c then (c, None) else (c, Some []))"
| "evict_loop_n c ((expiration, key) # rest) =
     (if isFull_n c
      then evict_loop_n (c\<lparr> map_n := purge_n (expiration, key) (map_n c) \<rparr>) rest
      else (c, Some ((expiration, key) # rest)))"

definition evict_n :: "'v cache_n \<Rightarrow> (error + unit) \<times> 'v cache_n" where
  "evict_n c =
     (case evict_loop_n c (list_n c) of
        (c', None) \<Rightarrow> (Inl AssertionError, c')
      | (c', Some rest) \<Rightarrow> (Inr (), c'\<lparr> list_n := rest \<rparr>))"

definition get_n :: "string \<Rightarrow> number \<Rightarrow> 'v cache_n \<Rightarrow> 'v option \<times> 'v cache_n" where
  "get_n key now c0 =
     (let c = scrub_n now c0 in
      case fmlookup (map_n c) key of
        None \<Rightarrow> (None, c)
      | Some item \<Rightarrow>
          if fst item > now then (snd item, c)
          else (None, c\<lparr> map_n := fmdrop key (map_n c) \<rparr>))"

definition set_n :: "string \<Rightarrow> 'v option \<Rightarrow> number \<Rightarrow> 'v cache_n \<Rightarrow> (error + unit) \<times> 'v cache_n" where
  "set_n key val now c0 =
     (let c1 = scrub_n now c0;
          (r, c2) = (if isFull_n c1
                     then (case get_n key now c1 of
                             (got, c) \<Rightarrow> if isNil got then evict_n c else (Inr (), c))
                     else (Inr (), c1))
      in case r of
           Inl e \<Rightarrow> (Inl e, c2)
         | Inr _ \<Rightarrow>
             (let expiration = now + ttl_n c2
              in (Inr (), c2\<lparr> map_n := fmupd key (expiration, val) (map_n c2),
                              list_n := list_n c2 @ [(expiration, key)] \<rparr>)))"

datatype 'v op_n =
  Set_n string "'v option" number | Get_n string number | IsFull_n | Scrub_n number | Evict_n

fun exec_n :: "'v op_n \<Rightarrow> 'v cache_n \<Rightarrow> (error + 'v reply) \<times> 'v cache_n" where
  "exec_n (Set_n key val now) c =
     (case set_n key val now c of
        (Inl e, c') \<Rightarrow> (Inl e, c')
      | (Inr _, c') \<Rightarrow> (Inr Self, c'))"
| "exec_n (Get_n key now) c = (case get_n key now c of (r, c') \<Rightarrow> (Inr (Got r), c'))"
| "exec_n IsFull_n c = (Inr (Full (isFull_n c)), c)"
| "exec_n (Scrub_n now) c = (Inr Void, scrub_n now c)"
| "exec_n Evict_n c =
     (case evict_n c of
        (Inl e, c') \<Rightarrow> (Inl e, c')
      | (Inr _, c') \<Rightarrow> (Inr Void, c'))"

fun run_n :: "'v op_n list \<Rightarrow> 'v cache_n \<Rightarrow> 'v cache_n" where
  "run_n [] c = c"
| "run_n (x # xs) c = run_n xs (snd (exec_n x c))"

text \<open>
  The correspondence of map and ledger on numbers: every entry of the map has a ledger
  entry with its key and, by \<open>===\<close>, its expiration.
\<close>

definition ledger_covers_n :: "'v entries_n \<Rightarrow> ledger_n \<Rightarrow> bool" where
  "ledger_covers_n m l =
     fmpred (\<lambda>key item. list_ex (\<lambda>x. snd x = key \<and> strict_eq (fst item) (fst x)) l) m"

subsection \<open>The integers among the numbers\<close>

text \<open>
  An integer is a number, and so are an options object, a call and a cache of the first
  embedding ones of the second. The two embeddings are compared along these maps.
\<close>

definition num_of :: "int \<Rightarrow> number" where
  "num_of i = Num (of_int i)"

definition entries_of :: "'v entries \<Rightarrow> 'v entries_n" where
  "entries_of m = fmmap (\<lambda>item. (num_of (fst item), snd item)) m"

definition ledger_of :: "ledger \<Rightarrow> ledger_n" where
  "ledger_of l = map (\<lambda>x. (num_of (fst x), snd x)) l"

definition cache_of :: "'v cache \<Rightarrow> 'v cache_n" where
  "cache_of c = \<lparr> ttl_n = num_of (ttl c), capacity_n = num_of (capacity c),
                  interval_n = num_of (interval c), last_n = map_option num_of (last_c c),
                  map_n = entries_of (map_c c), list_n = ledger_of (list_c c) \<rparr>"

definition options_of :: "options \<Rightarrow> options_n" where
  "options_of opts = \<lparr> ttl_opt = num_of (opt_ttl opts), capacity_opt = num_of (opt_capacity opts),
                        interval_opt = map_option num_of (opt_interval opts) \<rparr>"

fun op_of :: "'v op \<Rightarrow> 'v op_n" where
  "op_of (Set key val now) = Set_n key val (num_of now)"
| "op_of (Get key now) = Get_n key (num_of now)"
| "op_of IsFull = IsFull_n"
| "op_of (Scrub now) = Scrub_n (num_of now)"
| "op_of Evict = Evict_n"

subsection \<open>The map and the ledger entry swept\<close>

lemma purge_lookup:
  "fmlookup (purge (e, k) m) k' =
     (if k' = k \<and> (\<exists>v. fmlookup m k = Some (e, v)) then None else fmlookup m k')"
  by (auto simp: purge_def split: option.splits)

lemma map_size_drop_le: "map_size (fmdrop k m) \<le> map_size m"
  by (simp add: map_size_def fcard_fminus1_le)

lemma map_size_drop_less: "fmlookup m k = Some x \<Longrightarrow> map_size (fmdrop k m) < map_size m"
  using fcard_fminus1_less [OF fmdomI, of m k x] by (simp add: map_size_def)

lemma map_size_upd_le: "map_size (fmupd k x m) \<le> Suc (map_size m)"
  by (simp add: map_size_def fcard_finsert_if)

lemma map_size_upd_same: "fmlookup m k = Some y \<Longrightarrow> map_size (fmupd k x m) = map_size m"
  by (simp add: map_size_def fcard_finsert_if fmdomI)

lemma map_size_purge_le: "map_size (purge x m) \<le> map_size m"
  by (cases x) (auto simp: purge_def map_size_drop_le split: option.splits)

lemma map_size_pos_lookup: "0 < map_size m \<Longrightarrow> \<exists>k x. fmlookup m k = Some x"
proof -
  assume "0 < map_size m"
  then have "fmdom m \<noteq> {||}" by (auto simp: map_size_def fcard_fempty)
  then obtain k where "k |\<in>| fmdom m" by auto
  then show ?thesis by (auto simp: fmlookup_dom_iff)
qed

lemma ledger_covers_iff:
  "ledger_covers m l \<longleftrightarrow> (\<forall>k e v. fmlookup m k = Some (e, v) \<longrightarrow> (e, k) \<in> set l)"
  by (auto simp: ledger_covers_def fmpred_iff)

lemma ledger_covers_purge:
  "ledger_covers m (x # l) \<Longrightarrow> ledger_covers (purge x m) l"
  by (cases x) (auto simp: ledger_covers_iff purge_lookup split: if_splits)

lemma ledger_covers_drop: "ledger_covers m l \<Longrightarrow> ledger_covers (fmdrop k m) l"
  by (auto simp: ledger_covers_iff split: if_splits)

lemma ledger_covers_mono: "ledger_covers m l \<Longrightarrow> set l \<subseteq> set l' \<Longrightarrow> ledger_covers m l'"
  by (auto simp: ledger_covers_iff)

lemma ledger_covers_upd:
  "ledger_covers m l \<Longrightarrow> ledger_covers (fmupd k (e, v) m) (l @ [(e, k)])"
  by (auto simp: ledger_covers_iff split: if_splits)

lemma ledger_covers_purge_same: "ledger_covers m l \<Longrightarrow> ledger_covers (purge x m) l"
  by (cases x) (auto simp: ledger_covers_iff purge_lookup split: if_splits)

lemma scrub_loop_covers:
  "ledger_covers m l \<Longrightarrow> scrub_loop t m l = (m', l') \<Longrightarrow> ledger_covers m' l'"
proof (induction t m l rule: scrub_loop.induct)
  case (1 t m)
  then show ?case by simp
next
  case (2 t m e k rest)
  show ?case
  proof (cases "e > t")
    case True
    with 2 show ?thesis by simp
  next
    case False
    with 2 show ?thesis by (simp add: ledger_covers_purge)
  qed
qed

lemma scrub_loop_size:
  "scrub_loop t m l = (m', l') \<Longrightarrow> map_size m' \<le> map_size m"
proof (induction t m l rule: scrub_loop.induct)
  case (1 t m)
  then show ?case by simp
next
  case (2 t m e k rest)
  then show ?case
    using map_size_purge_le [of "(e, k)" m] by (auto split: if_splits)
qed

lemma scrub_loop_list:
  "snd (scrub_loop t m l) = dropWhile (\<lambda>(e, k). e \<le> t) l"
  by (induction t m l rule: scrub_loop.induct) auto

lemma scrub_loop_lookup:
  "fmlookup (fst (scrub_loop t m l)) k =
     (case fmlookup m k of
        None \<Rightarrow> None
      | Some x \<Rightarrow> if (fst x, k) \<in> set (takeWhile (\<lambda>(e, k). e \<le> t) l) then None else Some x)"
proof (induction t m l rule: scrub_loop.induct)
  case (1 t m)
  then show ?case by (simp split: option.splits)
next
  case (2 t m e k' rest)
  then show ?case
    by (auto simp: purge_lookup split: option.splits if_splits)
qed

subsection \<open>Fields that no operation changes\<close>

lemma evict_loop_fields:
  "evict_loop c l = (c', r) \<Longrightarrow>
     ttl c' = ttl c \<and> capacity c' = capacity c \<and> interval c' = interval c \<and>
     last_c c' = last_c c \<and> list_c c' = list_c c"
proof (induction c l rule: evict_loop.induct)
  case (1 c)
  then show ?case by (auto split: if_splits)
next
  case (2 c e k rest)
  then show ?case by (auto split: if_splits)
qed

lemma evict_loop_size:
  "evict_loop c l = (c', r) \<Longrightarrow> map_size (map_c c') \<le> map_size (map_c c)"
proof (induction c l arbitrary: c' r rule: evict_loop.induct)
  case (1 c)
  then show ?case by (auto split: if_splits)
next
  case (2 c e k rest)
  show ?case
  proof (cases "isFull c")
    case True
    with 2 have "map_size (map_c c') \<le> map_size (purge (e, k) (map_c c))" by simp
    then show ?thesis using map_size_purge_le [of "(e, k)" "map_c c"] by simp
  next
    case False
    with 2 show ?thesis by simp
  qed
qed

lemma evict_loop_covers_any:
  "ledger_covers (map_c c) l0 \<Longrightarrow> evict_loop c l = (c', r) \<Longrightarrow> ledger_covers (map_c c') l0"
proof (induction c l arbitrary: c' r rule: evict_loop.induct)
  case (1 c)
  then show ?case by (auto split: if_splits)
next
  case (2 c e k rest)
  then show ?case by (auto split: if_splits simp: ledger_covers_purge_same)
qed

text \<open>
  With every map entry covered by the part of the list not yet walked and a positive
  capacity, the loop of \<open>evict\<close> ends before the end of the list: a full map is not empty,
  and its entries are still ahead.
\<close>

lemma evict_loop_ok:
  "ledger_covers (map_c c) l \<Longrightarrow> 0 < capacity c \<Longrightarrow>
     \<exists>c' rest. evict_loop c l = (c', Some rest) \<and> \<not> isFull c' \<and>
       ledger_covers (map_c c') rest"
proof (induction c l rule: evict_loop.induct)
  case (1 c)
  have "\<not> isFull c"
  proof
    assume "isFull c"
    with 1 have "0 < map_size (map_c c)" by (simp add: isFull_def)
    then obtain k x where "fmlookup (map_c c) k = Some x"
      using map_size_pos_lookup by blast
    with 1 show False by (cases x) (auto simp: ledger_covers_iff)
  qed
  with 1 show ?case by simp
next
  case (2 c e k rest)
  show ?case
  proof (cases "isFull c")
    case True
    let ?c = "c\<lparr> map_c := purge (e, k) (map_c c) \<rparr>"
    have "ledger_covers (map_c ?c) rest" using 2 by (simp add: ledger_covers_purge)
    moreover have "0 < capacity ?c" using 2 by simp
    ultimately show ?thesis using 2 True by simp
  next
    case False
    with 2 show ?thesis by simp
  qed
qed

lemma evict_fields:
  "evict c = (r, c') \<Longrightarrow>
     ttl c' = ttl c \<and> capacity c' = capacity c \<and> interval c' = interval c \<and>
     last_c c' = last_c c"
  by (auto simp: evict_def split: prod.splits option.splits dest: evict_loop_fields)

lemma evict_ok:
  assumes "ledger_covers (map_c c) (list_c c)" and "0 < capacity c"
  shows "\<exists>c'. evict c = (Inr (), c') \<and> \<not> isFull c' \<and>
           ledger_covers (map_c c') (list_c c')"
proof -
  obtain c1 rest where "evict_loop c (list_c c) = (c1, Some rest)" "\<not> isFull c1"
      "ledger_covers (map_c c1) rest"
    using evict_loop_ok [OF assms] by blast
  then show ?thesis by (simp add: evict_def isFull_def)
qed

lemma evict_loop_covers_rest:
  "ledger_covers (map_c c) l \<Longrightarrow> evict_loop c l = (c', Some rest) \<Longrightarrow>
     ledger_covers (map_c c') rest"
proof (induction c l arbitrary: c' rest rule: evict_loop.induct)
  case (1 c)
  then show ?case by (auto split: if_splits)
next
  case (2 c e k rest0)
  then show ?case by (auto split: if_splits simp: ledger_covers_purge)
qed

lemma evict_covers:
  assumes "ledger_covers (map_c c) (list_c c)"
  shows "ledger_covers (map_c (snd (evict c))) (list_c (snd (evict c)))"
proof (cases "evict_loop c (list_c c)")
  case (Pair c1 r)
  show ?thesis
  proof (cases r)
    case None
    with Pair assms show ?thesis
      using evict_loop_covers_any [of c "list_c c" "list_c c" c1 r] evict_loop_fields [of c "list_c c" c1 r]
      by (simp add: evict_def)
  next
    case (Some rest)
    with Pair assms show ?thesis
      using evict_loop_covers_rest [of c "list_c c" c1 rest] by (simp add: evict_def)
  qed
qed

lemma evict_size: "map_size (map_c (snd (evict c))) \<le> map_size (map_c c)"
proof (cases "evict_loop c (list_c c)")
  case (Pair c1 r)
  then show ?thesis
    using evict_loop_size [of c "list_c c" c1 r] by (cases r) (simp_all add: evict_def)
qed

subsection \<open>\<open>scrub\<close>, \<open>get\<close> and \<open>set\<close>\<close>

lemma scrub_fields:
  "ttl (scrub now c) = ttl c \<and> capacity (scrub now c) = capacity c \<and>
   interval (scrub now c) = interval c"
  by (simp add: scrub_def split: prod.splits)

lemma scrub_covers:
  "ledger_covers (map_c c) (list_c c) \<Longrightarrow>
     ledger_covers (map_c (scrub now c)) (list_c (scrub now c))"
  by (auto simp: scrub_def split: prod.splits dest: scrub_loop_covers)

lemma scrub_size: "map_size (map_c (scrub now c)) \<le> map_size (map_c c)"
  by (auto simp: scrub_def split: prod.splits dest: scrub_loop_size)

lemma scrub_lookup:
  "fmlookup (map_c (scrub now c)) k =
     (if now - (case last_c c of None \<Rightarrow> 0 | Some l \<Rightarrow> l) < interval c then fmlookup (map_c c) k
      else (case fmlookup (map_c c) k of
              None \<Rightarrow> None
            | Some x \<Rightarrow> if (fst x, k) \<in> set (takeWhile (\<lambda>(e, k). e \<le> now) (list_c c))
                        then None else Some x))"
  using scrub_loop_lookup [of now "map_c c" "list_c c" k]
  by (auto simp: scrub_def split: prod.splits)

lemma takeWhile_expired: "(e, k) \<in> set (takeWhile (\<lambda>(e, k). e \<le> now) l) \<Longrightarrow> e \<le> now"
  by (auto dest: set_takeWhileD)

text \<open>\<open>scrub\<close> keeps every entry that is live at the time of the call.\<close>

lemma scrub_live:
  "fmlookup (map_c c) k = Some (e, v) \<Longrightarrow> now < e \<Longrightarrow>
     fmlookup (map_c (scrub now c)) k = Some (e, v)"
  by (auto simp: scrub_lookup dest: takeWhile_expired)

lemma scrub_lookup_sub:
  "fmlookup (map_c (scrub now c)) k = Some x \<Longrightarrow> fmlookup (map_c c) k = Some x"
  by (auto simp: scrub_lookup split: if_splits option.splits)

lemma get_fields:
  "ttl (snd (get k now c)) = ttl c \<and> capacity (snd (get k now c)) = capacity c \<and>
   interval (snd (get k now c)) = interval c"
  by (simp add: get_def Let_def scrub_fields split: option.splits)

lemma get_covers:
  "ledger_covers (map_c c) (list_c c) \<Longrightarrow>
     ledger_covers (map_c (snd (get k now c))) (list_c (snd (get k now c)))"
  using scrub_covers [of c now]
  by (auto simp: get_def Let_def ledger_covers_drop split: option.splits)

lemma get_size: "map_size (map_c (snd (get k now c))) \<le> map_size (map_c c)"
  using scrub_size [of now c] map_size_drop_le [of k "map_c (scrub now c)"]
  by (auto simp: get_def Let_def split: option.splits)

lemma get_Some_iff:
  "fst (get k now c) = Some v \<longleftrightarrow>
     (\<exists>e. fmlookup (map_c (scrub now c)) k = Some (e, Some v) \<and> now < e)"
  by (auto simp: get_def Let_def split: option.splits if_splits)


lemma evict_loop_not_full:
  "evict_loop c l = (c', Some rest) \<Longrightarrow> \<not> isFull c'"
proof (induction c l arbitrary: c' rest rule: evict_loop.induct)
  case (1 c)
  then show ?case by (auto split: if_splits)
next
  case (2 c e k rest0)
  then show ?case by (auto split: if_splits)
qed

lemma evict_not_full: "evict c = (Inr (), c') \<Longrightarrow> \<not> isFull c'"
  by (auto simp: evict_def isFull_def split: prod.splits option.splits
        dest!: evict_loop_not_full)

text \<open>The four paths through \<open>set\<close>.\<close>

lemma set_c_cases [case_names not_full live evicted failed]:
  fixes c :: "'v cache"
  assumes "\<not> isFull (scrub now c) \<Longrightarrow>
      set_c k v now c =
        (Inr (), (scrub now c)\<lparr> map_c := fmupd k (now + ttl c, v) (map_c (scrub now c)),
                                list_c := list_c (scrub now c) @ [(now + ttl c, k)] \<rparr>) \<Longrightarrow> P"
    and "\<And>x c1. isFull (scrub now c) \<Longrightarrow> get k now (scrub now c) = (Some x, c1) \<Longrightarrow>
      set_c k v now c =
        (Inr (), c1\<lparr> map_c := fmupd k (now + ttl c, v) (map_c c1),
                      list_c := list_c c1 @ [(now + ttl c, k)] \<rparr>) \<Longrightarrow> P"
    and "\<And>c1 c2. isFull (scrub now c) \<Longrightarrow> get k now (scrub now c) = (None, c1) \<Longrightarrow>
      evict c1 = (Inr (), c2) \<Longrightarrow>
      set_c k v now c =
        (Inr (), c2\<lparr> map_c := fmupd k (now + ttl c, v) (map_c c2),
                      list_c := list_c c2 @ [(now + ttl c, k)] \<rparr>) \<Longrightarrow> P"
    and "\<And>c1 c2 e. isFull (scrub now c) \<Longrightarrow> get k now (scrub now c) = (None, c1) \<Longrightarrow>
      evict c1 = (Inl e, c2) \<Longrightarrow> set_c k v now c = (Inl e, c2) \<Longrightarrow> P"
  shows P
proof (cases "isFull (scrub now c)")
  case False
  then show ?thesis using assms(1) by (simp add: set_c_def Let_def scrub_fields)
next
  case True
  obtain r c1 where g: "get k now (scrub now c) = (r, c1)" by (cases "get k now (scrub now c)")
  then have t1: "ttl c1 = ttl c" using get_fields [of k now "scrub now c"] by (simp add: scrub_fields)
  show ?thesis
  proof (cases r)
    case (Some x)
    with g have g': "get k now (scrub now c) = (Some x, c1)" by simp
    show ?thesis
      by (rule assms(2) [OF True g']) (simp add: set_c_def Let_def True g' t1)
  next
    case None
    with g have g': "get k now (scrub now c) = (None, c1)" by simp
    obtain r2 c2 where e: "evict c1 = (r2, c2)" by (cases "evict c1")
    then have t2: "ttl c2 = ttl c" using evict_fields [of c1 r2 c2] t1 by simp
    show ?thesis
    proof (cases r2)
      case (Inl err)
      with e have e': "evict c1 = (Inl err, c2)" by simp
      show ?thesis
        by (rule assms(4) [OF True g' e']) (simp add: set_c_def Let_def True g' e')
    next
      case (Inr u)
      with e have e': "evict c1 = (Inr (), c2)" by simp
      show ?thesis
        by (rule assms(3) [OF True g' e']) (simp add: set_c_def Let_def True g' e' t2)
    qed
  qed
qed

lemma set_c_fields:
  "ttl (snd (set_c k v now c)) = ttl c \<and> capacity (snd (set_c k v now c)) = capacity c \<and>
   interval (snd (set_c k v now c)) = interval c"
proof (cases k v now c rule: set_c_cases)
  case not_full
  then show ?thesis by (simp add: scrub_fields)
next
  case (live x c1)
  then show ?thesis using get_fields [of k now "scrub now c"] by (simp add: scrub_fields)
next
  case (evicted c1 c2)
  then show ?thesis
    using get_fields [of k now "scrub now c"] evict_fields [of c1 "Inr ()" c2]
    by (simp add: scrub_fields)
next
  case (failed c1 c2 e)
  then show ?thesis
    using get_fields [of k now "scrub now c"] evict_fields [of c1 "Inl e" c2]
    by (simp add: scrub_fields)
qed

lemma set_c_covers:
  assumes "ledger_covers (map_c c) (list_c c)"
  shows "ledger_covers (map_c (snd (set_c k v now c))) (list_c (snd (set_c k v now c)))"
proof -
  have s: "ledger_covers (map_c (scrub now c)) (list_c (scrub now c))"
    using assms by (rule scrub_covers)
  show ?thesis
  proof (cases k v now c rule: set_c_cases)
    case not_full
    then show ?thesis using s by (simp add: ledger_covers_upd)
  next
    case (live x c1)
    then show ?thesis using get_covers [OF s, of k now] by (simp add: ledger_covers_upd)
  next
    case (evicted c1 c2)
    then show ?thesis
      using evict_covers [of c1] get_covers [OF s, of k now] by (simp add: ledger_covers_upd)
  next
    case (failed c1 c2 e)
    then show ?thesis
      using evict_covers [of c1] get_covers [OF s, of k now] by simp
  qed
qed

text \<open>\<open>set\<close> does not throw on a cache whose map is covered by its ledger.\<close>

lemma set_c_ok:
  assumes "ledger_covers (map_c c) (list_c c)" and "0 < capacity c"
  shows "fst (set_c k v now c) = Inr ()"
proof (cases k v now c rule: set_c_cases)
  case (failed c1 c2 e)
  have "ledger_covers (map_c c1) (list_c c1)"
    using get_covers [OF scrub_covers [OF assms(1)], of k now now] failed by simp
  moreover have "0 < capacity c1"
    using get_fields [of k now "scrub now c"] failed assms(2) by (simp add: scrub_fields)
  ultimately show ?thesis using evict_ok [of c1] failed by auto
qed simp_all

text \<open>\<open>set\<close> keeps the map within the capacity.\<close>

lemma set_c_size:
  assumes "int (map_size (map_c c)) \<le> capacity c"
  shows "int (map_size (map_c (snd (set_c k v now c)))) \<le> capacity c"
proof (cases k v now c rule: set_c_cases)
  case not_full
  then show ?thesis
    using map_size_upd_le [of k "(now + ttl c, v)" "map_c (scrub now c)"]
    by (simp add: isFull_def scrub_fields)
next
  case (live x c1)
  then obtain e where "fmlookup (map_c (scrub now (scrub now c))) k = Some (e, Some x)" "now < e"
    using get_Some_iff [of k now "scrub now c" x] by auto
  then have "fmlookup (map_c c1) k = Some (e, Some x)"
    using live by (auto simp: get_def Let_def split: option.splits if_splits)
  then have "map_size (fmupd k (now + ttl c, v) (map_c c1)) = map_size (map_c c1)"
    by (rule map_size_upd_same)
  moreover have "map_size (map_c c1) \<le> map_size (map_c c)"
    using get_size [of k now "scrub now c"] scrub_size [of now c] live by simp
  ultimately show ?thesis using live assms by simp
next
  case (evicted c1 c2)
  have "capacity c1 = capacity c"
    using get_fields [of k now "scrub now c"] evicted by (simp add: scrub_fields)
  moreover have "\<not> isFull c2 \<and> capacity c2 = capacity c1"
    using evicted evict_fields [of c1 "Inr ()" c2] evict_not_full [of c1 c2] by simp
  ultimately show ?thesis
    using evicted map_size_upd_le [of k "(now + ttl c, v)" "map_c c2"]
    by (simp add: isFull_def)
next
  case (failed c1 c2 e)
  have "map_size (map_c c2) \<le> map_size (map_c c1)"
    using evict_size [of c1] failed by simp
  moreover have "map_size (map_c c1) \<le> map_size (map_c c)"
    using get_size [of k now "scrub now c"] scrub_size [of now c] failed by simp
  ultimately show ?thesis using failed assms by simp
qed

subsection \<open>Calls and sequences of calls\<close>

lemma snd_exec:
  "snd (exec (Set k v now) c) = snd (set_c k v now c)"
  "snd (exec (Get k now) c) = snd (get k now c)"
  "snd (exec IsFull c) = c"
  "snd (exec (Scrub now) c) = scrub now c"
  "snd (exec Evict c) = snd (evict c)"
  by (auto split: prod.splits sum.splits)

lemma fst_exec_Set: "fst (exec (Set k v now) c) = Inr Self \<longleftrightarrow> fst (set_c k v now c) = Inr ()"
  by (auto split: prod.splits sum.splits)

lemma fst_exec_Evict: "fst (exec Evict c) = Inr Void \<longleftrightarrow> fst (evict c) = Inr ()"
  by (auto split: prod.splits sum.splits)

lemma exec_fields:
  "ttl (snd (exec x c)) = ttl c \<and> capacity (snd (exec x c)) = capacity c \<and>
   interval (snd (exec x c)) = interval c"
proof (cases x)
  case (Set k v now)
  then show ?thesis using set_c_fields [of k v now c] by (simp only: snd_exec)
next
  case (Get k now)
  then show ?thesis using get_fields [of k now c] by (simp only: snd_exec)
next
  case IsFull
  then show ?thesis by simp
next
  case (Scrub now)
  then show ?thesis by (simp add: scrub_fields)
next
  case Evict
  then show ?thesis
    using evict_fields [of c "fst (evict c)" "snd (evict c)"] by (simp add: snd_exec del: exec.simps)
qed

lemma exec_covers:
  assumes "ledger_covers (map_c c) (list_c c)"
  shows "ledger_covers (map_c (snd (exec x c))) (list_c (snd (exec x c)))"
proof (cases x)
  case (Set k v now)
  then show ?thesis
    using set_c_covers [OF assms, of k v now] by (simp only: snd_exec)
next
  case (Get k now)
  then show ?thesis using get_covers [OF assms, of k now] by (simp only: snd_exec)
next
  case IsFull
  then show ?thesis using assms by simp
next
  case (Scrub now)
  then show ?thesis using scrub_covers [OF assms] by simp
next
  case Evict
  then show ?thesis using evict_covers [OF assms] by (simp only: snd_exec)
qed

lemma exec_size:
  assumes "int (map_size (map_c c)) \<le> capacity c"
  shows "int (map_size (map_c (snd (exec x c)))) \<le> capacity c"
proof (cases x)
  case (Set k v now)
  then show ?thesis
    using set_c_size [OF assms, of k v now] by (simp only: snd_exec)
next
  case (Get k now)
  then show ?thesis using get_size [of k now c] assms by (simp add: snd_exec del: exec.simps)
next
  case IsFull
  then show ?thesis using assms by simp
next
  case (Scrub now)
  then show ?thesis using scrub_size [of now c] assms by simp
next
  case Evict
  then show ?thesis using evict_size [of c] assms by (simp add: snd_exec del: exec.simps)
qed

lemma exec_ok:
  assumes "ledger_covers (map_c c) (list_c c)" and "0 < capacity c"
  shows "\<exists>r. fst (exec x c) = Inr r"
proof (cases x)
  case (Set k v now)
  then show ?thesis
    using set_c_ok [OF assms, of k v now] fst_exec_Set [of k v now c] by blast
next
  case (Get k now)
  then show ?thesis by (simp split: prod.splits)
next
  case IsFull
  then show ?thesis by simp
next
  case (Scrub now)
  then show ?thesis by simp
next
  case Evict
  then show ?thesis using evict_ok [OF assms] fst_exec_Evict [of c] by fastforce
qed



lemma run_capacity: "capacity (run xs c) = capacity c"
  by (induction xs arbitrary: c) (simp_all add: exec_fields)

lemma run_covers:
  "ledger_covers (map_c c) (list_c c) \<Longrightarrow>
     ledger_covers (map_c (run xs c)) (list_c (run xs c))"
  by (induction xs arbitrary: c) (simp_all add: exec_covers)

lemma run_size:
  "int (map_size (map_c c)) \<le> capacity c \<Longrightarrow>
     int (map_size (map_c (run xs c))) \<le> capacity c"
proof (induction xs arbitrary: c)
  case Nil
  then show ?case by simp
next
  case (Cons x xs)
  have "int (map_size (map_c (snd (exec x c)))) \<le> capacity (snd (exec x c))"
    using exec_size [OF Cons.prems, of x] by (simp add: exec_fields)
  from Cons.IH [OF this] show ?case by (simp add: exec_fields)
qed

lemma new_Inr:
  "new opts = Inr c0 \<Longrightarrow>
     0 < capacity c0 \<and> capacity c0 = opt_capacity opts \<and> 0 < ttl c0 \<and>
     map_c c0 = fmempty \<and> list_c c0 = []"
  by (auto simp: new_def split: if_splits)

lemma new_covers: "new opts = Inr c0 \<Longrightarrow> ledger_covers (map_c c0) (list_c c0)"
  by (auto simp: new_def ledger_covers_def split: if_splits)

lemma new_size: "new opts = Inr c0 \<Longrightarrow> int (map_size (map_c c0)) \<le> capacity c0"
  by (auto simp: new_def map_size_def fcard_fempty split: if_splits)

section \<open>Properties\<close>

subsection \<open>What \<open>set\<close> stores and what \<open>get\<close> finds\<close>

lemma set_c_stores:
  assumes "fst (set_c k v now c) = Inr ()"
  shows "fmlookup (map_c (snd (set_c k v now c))) k = Some (now + ttl c, v) \<and>
         (\<exists>l. list_c (snd (set_c k v now c)) = l @ [(now + ttl c, k)])"
  using assms by (cases k v now c rule: set_c_cases) simp_all


lemma get_expired:
  assumes "\<And>e v. fmlookup (map_c c) k = Some (e, v) \<Longrightarrow> e \<le> now"
  shows "fst (get k now c) = None"
proof (cases "fmlookup (map_c (scrub now c)) k")
  case None
  then show ?thesis by (simp add: get_def Let_def)
next
  case (Some x)
  then have "fmlookup (map_c c) k = Some (fst x, snd x)"
    using scrub_lookup_sub [of now c k x] by simp
  then have "fst x \<le> now" by (rule assms)
  with Some show ?thesis by (simp add: get_def Let_def)
qed

lemma get_expired_removed:
  assumes "\<And>e v. fmlookup (map_c c) k = Some (e, v) \<Longrightarrow> e \<le> now"
  shows "fmlookup (map_c (snd (get k now c))) k = None"
proof (cases "fmlookup (map_c (scrub now c)) k")
  case None
  then show ?thesis by (simp add: get_def Let_def)
next
  case (Some x)
  then have "fmlookup (map_c c) k = Some (fst x, snd x)"
    using scrub_lookup_sub [of now c k x] by simp
  then have "fst x \<le> now" by (rule assms)
  with Some show ?thesis by (simp add: get_def Let_def)
qed

lemma get_limited_list:
  "now - (case last_c c of None \<Rightarrow> 0 | Some l \<Rightarrow> l) < interval c \<Longrightarrow>
     list_c (snd (get k now c)) = list_c c \<and> last_c (snd (get k now c)) = last_c c"
  by (simp add: get_def Let_def scrub_def split: option.splits)



text \<open>
  C5 (expiry on read). When \<open>set(k, v, t0)\<close> returns, the map holds \<open>k\<close> with expiration
  \<open>t0 + ttl\<close>; \<open>get(k, t0 + ttl + \<epsilon>)\<close> called next, for any \<open>\<epsilon> > 0\<close>, returns
  \<open>undefined\<close> and leaves the map without \<open>k\<close>. That holds whether or not \<open>scrub\<close> ran
  in the call: when it is rate-limited, \<open>get\<close> leaves the ledger as it was, the entry's
  ledger entry included. On a cache reached from the constructor \<open>set\<close> does return.
\<close>

theorem expiry_on_read:
  fixes c c0 :: "'v cache"
  assumes "0 < eps"
  shows "(fst (set_c k v t0 c) = Inr () \<longrightarrow>
            fmlookup (map_c (snd (set_c k v t0 c))) k = Some (t0 + ttl c, v) \<and>
            fst (get k (t0 + ttl c + eps) (snd (set_c k v t0 c))) = None \<and>
            fmlookup (map_c (snd (get k (t0 + ttl c + eps) (snd (set_c k v t0 c))))) k = None \<and>
            (t0 + ttl c + eps
               - (case last_c (snd (set_c k v t0 c)) of None \<Rightarrow> 0 | Some l \<Rightarrow> l)
               < interval (snd (set_c k v t0 c)) \<longrightarrow>
             list_c (snd (get k (t0 + ttl c + eps) (snd (set_c k v t0 c)))) =
               list_c (snd (set_c k v t0 c)))) \<and>
         (new opts = Inr c0 \<and> c = run ops c0 \<longrightarrow> fst (set_c k v t0 c) = Inr ())"
proof (intro conjI impI)
  let ?c = "snd (set_c k v t0 c)"
  let ?t = "t0 + ttl c + eps"
  assume "fst (set_c k v t0 c) = Inr ()"
  then show s: "fmlookup (map_c ?c) k = Some (t0 + ttl c, v)"
    by (simp add: set_c_stores)
  have "\<And>e w. fmlookup (map_c ?c) k = Some (e, w) \<Longrightarrow> e \<le> ?t"
    using s assms by simp
  then have x: "\<And>e w. fmlookup (map_c ?c) k = Some (e, w) \<Longrightarrow> e \<le> ?t" .
  show "fst (get k ?t ?c) = None" using x by (rule get_expired)
  show "fmlookup (map_c (snd (get k ?t ?c))) k = None" using x by (rule get_expired_removed)
next
  let ?c = "snd (set_c k v t0 c)"
  let ?t = "t0 + ttl c + eps"
  assume "?t - (case last_c ?c of None \<Rightarrow> 0 | Some l \<Rightarrow> l) < interval ?c"
  then show "list_c (snd (get k ?t ?c)) = list_c ?c"
    by (simp add: get_limited_list)
next
  assume a: "new opts = Inr c0 \<and> c = run ops c0"
  then have "ledger_covers (map_c c) (list_c c)" "0 < capacity c"
    using new_covers [of opts c0] new_Inr [of opts c0] by (simp_all add: run_covers run_capacity)
  then show "fst (set_c k v t0 c) = Inr ()" by (rule set_c_ok)
qed

theorem expiry_on_read_witness:
  "fst (get ''a'' 11 (snd (set_c ''a'' (Some (1::nat)) 0
      \<lparr> ttl = 1, capacity = 1000, interval = 10000, last_c = None,
        map_c = fmempty, list_c = [] \<rparr>))) = None \<and>
   fmlookup (map_c (snd (get ''a'' 11 (snd (set_c ''a'' (Some (1::nat)) 0
      \<lparr> ttl = 1, capacity = 1000, interval = 10000, last_c = None,
        map_c = fmempty, list_c = [] \<rparr>))))) ''a'' = None \<and>
   list_c (snd (get ''a'' 11 (snd (set_c ''a'' (Some (1::nat)) 0
      \<lparr> ttl = 1, capacity = 1000, interval = 10000, last_c = None,
        map_c = fmempty, list_c = [] \<rparr>)))) = [(1, ''a'')]"
proof -
  let ?empty = "\<lparr> ttl = 1, capacity = 1000, interval = 10000, last_c = None,
                  map_c = (fmempty :: nat entries), list_c = [] \<rparr>"
  have e: "(0::int) < 10" by simp
  have s: "set_c ''a'' (Some (1::nat)) 0 ?empty =
      (Inr (), \<lparr> ttl = 1, capacity = 1000, interval = 10000, last_c = None,
                 map_c = fmupd ''a'' (1, Some 1) fmempty, list_c = [(1, ''a'')] \<rparr>)"
    by (simp add: set_c_def scrub_def isFull_def map_size_def fcard_fempty)
  from expiry_on_read [OF e, of "''a''" "Some 1" 0 ?empty] s
  show ?thesis by simp
qed

text \<open>
  C10 (the expiration itself is expired). When \<open>set(k, v, t0)\<close> returns,
  \<open>get(k, t0 + ttl)\<close> called next returns \<open>undefined\<close> and leaves the map without \<open>k\<close>.
  A \<open>scrub\<close> that is not rate-limited drops from the front of the ledger the entries with
  \<open>expiration \<le> now\<close>, up to the first with \<open>expiration > now\<close>, and deletes the map
  entries that match one of them. A \<open>get\<close> that returns a value found it in the map with
  \<open>expiration > now\<close>.
\<close>

theorem expiration_boundary_exclusive:
  fixes c :: "'v cache"
  shows "(fst (set_c k v t0 c) = Inr () \<longrightarrow>
            fst (get k (t0 + ttl c) (snd (set_c k v t0 c))) = None \<and>
            fmlookup (map_c (snd (get k (t0 + ttl c) (snd (set_c k v t0 c))))) k = None) \<and>
         (\<not> now - (case last_c c of None \<Rightarrow> 0 | Some l \<Rightarrow> l) < interval c \<longrightarrow>
            list_c (scrub now c) = dropWhile (\<lambda>(e, k). e \<le> now) (list_c c) \<and>
            ((e, k) \<in> set (takeWhile (\<lambda>(e, k). e \<le> now) (list_c c)) \<and>
               fmlookup (map_c c) k = Some (e, v) \<longrightarrow>
             fmlookup (map_c (scrub now c)) k = None)) \<and>
         (fst (get k now c) = Some w \<longrightarrow>
            (\<exists>e. fmlookup (map_c c) k = Some (e, Some w) \<and> now < e))"
proof (intro conjI impI)
  let ?c = "snd (set_c k v t0 c)"
  assume "fst (set_c k v t0 c) = Inr ()"
  then have s: "fmlookup (map_c ?c) k = Some (t0 + ttl c, v)"
    by (simp add: set_c_stores)
  have "\<And>e w. fmlookup (map_c ?c) k = Some (e, w) \<Longrightarrow> e \<le> t0 + ttl c"
    using s by simp
  then have x: "\<And>e w. fmlookup (map_c ?c) k = Some (e, w) \<Longrightarrow> e \<le> t0 + ttl c" .
  show "fst (get k (t0 + ttl c) ?c) = None" using x by (rule get_expired)
  show "fmlookup (map_c (snd (get k (t0 + ttl c) ?c))) k = None"
    using x by (rule get_expired_removed)
next
  assume "\<not> now - (case last_c c of None \<Rightarrow> 0 | Some l \<Rightarrow> l) < interval c"
  then show "list_c (scrub now c) = dropWhile (\<lambda>(e, k). e \<le> now) (list_c c)"
    using scrub_loop_list [of now "map_c c" "list_c c"]
    by (auto simp: scrub_def split: prod.splits)
next
  assume "\<not> now - (case last_c c of None \<Rightarrow> 0 | Some l \<Rightarrow> l) < interval c"
    and "(e, k) \<in> set (takeWhile (\<lambda>(e, k). e \<le> now) (list_c c)) \<and>
      fmlookup (map_c c) k = Some (e, v)"
  then show "fmlookup (map_c (scrub now c)) k = None"
    by (simp add: scrub_lookup)
next
  assume "fst (get k now c) = Some w"
  then obtain e where "fmlookup (map_c (scrub now c)) k = Some (e, Some w)" "now < e"
    by (auto simp: get_Some_iff)
  then show "\<exists>e. fmlookup (map_c c) k = Some (e, Some w) \<and> now < e"
    using scrub_lookup_sub [of now c k "(e, Some w)"] by blast
qed

theorem expiration_boundary_exclusive_witness:
  "fst (get ''a'' 10 (snd (set_c ''a'' (Some (1::nat)) 0
      \<lparr> ttl = 10, capacity = 3, interval = 0, last_c = None,
        map_c = fmempty, list_c = [] \<rparr>))) = None \<and>
   list_c (scrub 10
      \<lparr> ttl = 10, capacity = 3, interval = 0, last_c = None,
        map_c = fmupd ''a'' (10, Some (1::nat)) fmempty, list_c = [(10, ''a'')] \<rparr>) = [] \<and>
   fmlookup (map_c (scrub 10
      \<lparr> ttl = 10, capacity = 3, interval = 0, last_c = None,
        map_c = fmupd ''a'' (10, Some (1::nat)) fmempty, list_c = [(10, ''a'')] \<rparr>)) ''a'' = None \<and>
   (\<exists>e. fmlookup (fmupd ''a'' (10::int, Some (1::nat)) fmempty) ''a'' = Some (e, Some 1) \<and> 9 < e)"
proof -
  let ?empty = "\<lparr> ttl = 10, capacity = 3, interval = 0, last_c = None,
                  map_c = (fmempty :: nat entries), list_c = [] \<rparr>"
  let ?one = "\<lparr> ttl = 10, capacity = 3, interval = 0, last_c = None,
                map_c = fmupd ''a'' (10, Some (1::nat)) fmempty, list_c = [(10, ''a'')] \<rparr>"
  have s: "set_c ''a'' (Some (1::nat)) 0 ?empty = (Inr (), ?one\<lparr> last_c := Some 0 \<rparr>)"
    by (simp add: set_c_def scrub_def isFull_def map_size_def fcard_fempty)
  have g: "fst (get ''a'' 9 ?one) = Some 1"
    by (simp add: get_def scrub_def)
  have 1: "fst (get ''a'' 10 (snd (set_c ''a'' (Some (1::nat)) 0 ?empty))) = None"
    using expiration_boundary_exclusive [of "''a''" "Some 1" 0 ?empty 10] s by simp
  have 2: "list_c (scrub 10 ?one) = [] \<and> fmlookup (map_c (scrub 10 ?one)) ''a'' = None"
    using expiration_boundary_exclusive [of "''a''" "Some 1" 0 ?one 10 10] by simp
  have 3: "\<exists>e. fmlookup (fmupd ''a'' (10::int, Some (1::nat)) fmempty) ''a'' = Some (e, Some 1) \<and> 9 < e"
    using expiration_boundary_exclusive [of "''a''" "Some 1" 0 ?one 9 _ 1] g by simp
  show ?thesis using 1 2 3 by blast
qed

lemma scrub_limited:
  "now - (case last_c c of None \<Rightarrow> 0 | Some l \<Rightarrow> l) < interval c \<Longrightarrow> scrub now c = c"
  by (simp add: scrub_def)

lemma set_c_limited_last:
  assumes "now - (case last_c c of None \<Rightarrow> 0 | Some l \<Rightarrow> l) < interval c"
  shows "last_c (snd (set_c k v now c)) = last_c c"
proof -
  have s: "scrub now c = c" using assms by (rule scrub_limited)
  have g: "last_c (snd (get k now c)) = last_c c"
    using get_limited_list [OF assms] by simp
  show ?thesis
  proof (cases k v now c rule: set_c_cases)
    case not_full
    then show ?thesis by (simp add: s)
  next
    case (live x c1)
    then show ?thesis using g by (simp add: s)
  next
    case (evicted c1 c2)
    then show ?thesis using g evict_fields [of c1 "Inr ()" c2] by (simp add: s)
  next
    case (failed c1 c2 e)
    then show ?thesis using g evict_fields [of c1 "Inl e" c2] by (simp add: s)
  qed
qed

text \<open>
  C7 (scrub is rate-limited). A \<open>scrub\<close> that runs at time \<open>t\<close> records \<open>last = t\<close>. With
  \<open>last = t\<close>, a call at a time \<open>t'\<close> with \<open>t' - t < interval\<close> does no sweep: \<open>scrub\<close>
  leaves the cache as it is (map, ledger and \<open>last\<close>), \<open>get\<close> leaves the ledger and
  \<open>last\<close> as they are, and \<open>set\<close> leaves \<open>last\<close> as it is. With a positive
  \<open>interval\<close>, a second \<open>scrub\<close> at the same time changes nothing either. Still, \<open>get\<close> at \<open>t'\<close> of a
  key whose entry has \<open>expiration \<le> t'\<close> returns \<open>undefined\<close> and deletes that entry, and
  nothing else, from the map.
\<close>

theorem scrub_rate_limited:
  fixes c c0 :: "'v cache"
  assumes "last_c c = Some t" and "t' - t < interval c"
  shows "scrub t' c = c \<and>
         list_c (snd (get k t' c)) = list_c c \<and>
         last_c (snd (get k t' c)) = Some t \<and>
         last_c (snd (set_c k v t' c)) = Some t \<and>
         (fmlookup (map_c c) k = Some (e, v) \<and> e \<le> t' \<longrightarrow>
            get k t' c = (None, c\<lparr> map_c := fmdrop k (map_c c) \<rparr>)) \<and>
         (\<not> t - (case last_c c0 of None \<Rightarrow> 0 | Some l \<Rightarrow> l) < interval c0 \<longrightarrow>
            last_c (scrub t c0) = Some t) \<and>
         (0 < interval c0 \<longrightarrow> scrub t (scrub t c0) = scrub t c0)"
proof -
  have lim: "t' - (case last_c c of None \<Rightarrow> 0 | Some l \<Rightarrow> l) < interval c"
    using assms by simp
  have s: "scrub t' c = c" using lim by (rule scrub_limited)
  have "list_c (snd (get k t' c)) = list_c c" "last_c (snd (get k t' c)) = Some t"
    using get_limited_list [OF lim, of k] assms(1) by simp_all
  moreover have "last_c (snd (set_c k v t' c)) = Some t"
    using set_c_limited_last [OF lim, of k v] assms(1) by simp
  moreover have "fmlookup (map_c c) k = Some (e, v) \<and> e \<le> t' \<longrightarrow>
      get k t' c = (None, c\<lparr> map_c := fmdrop k (map_c c) \<rparr>)"
    by (simp add: get_def Let_def s)
  moreover have "\<not> t - (case last_c c0 of None \<Rightarrow> 0 | Some l \<Rightarrow> l) < interval c0 \<longrightarrow>
      last_c (scrub t c0) = Some t"
    by (simp add: scrub_def split: prod.splits)
  moreover have "0 < interval c0 \<longrightarrow> scrub t (scrub t c0) = scrub t c0"
  proof (cases "t - (case last_c c0 of None \<Rightarrow> 0 | Some l \<Rightarrow> l) < interval c0")
    case True
    then show ?thesis by (simp add: scrub_limited)
  next
    case False
    then have "last_c (scrub t c0) = Some t" by (simp add: scrub_def split: prod.splits)
    then show ?thesis using scrub_limited [of t "scrub t c0"] by (simp add: scrub_fields)
  qed
  ultimately show ?thesis using s by simp
qed

theorem scrub_rate_limited_witness:
  "scrub 10010
     \<lparr> ttl = 5, capacity = 3, interval = 10000, last_c = Some 10000,
       map_c = fmupd ''a'' (10005, Some (1::nat)) fmempty, list_c = [(10005, ''a'')] \<rparr> =
     \<lparr> ttl = 5, capacity = 3, interval = 10000, last_c = Some 10000,
       map_c = fmupd ''a'' (10005, Some (1::nat)) fmempty, list_c = [(10005, ''a'')] \<rparr> \<and>
   get ''a'' 10010
     \<lparr> ttl = 5, capacity = 3, interval = 10000, last_c = Some 10000,
       map_c = fmupd ''a'' (10005, Some (1::nat)) fmempty, list_c = [(10005, ''a'')] \<rparr> =
     (None,
      \<lparr> ttl = 5, capacity = 3, interval = 10000, last_c = Some 10000,
        map_c = fmdrop ''a'' (fmupd ''a'' (10005, Some (1::nat)) fmempty),
        list_c = [(10005, ''a'')] \<rparr>) \<and>
   last_c (scrub 10000
     \<lparr> ttl = 5, capacity = 3, interval = 10000, last_c = None,
       map_c = (fmempty :: nat entries), list_c = [] \<rparr>) = Some 10000 \<and>
   scrub 10000 (scrub 10000
     \<lparr> ttl = 5, capacity = 3, interval = 10000, last_c = None,
       map_c = (fmempty :: nat entries), list_c = [] \<rparr>) =
   scrub 10000
     \<lparr> ttl = 5, capacity = 3, interval = 10000, last_c = None,
       map_c = (fmempty :: nat entries), list_c = [] \<rparr>"
proof -
  let ?one = "\<lparr> ttl = 5, capacity = 3, interval = 10000, last_c = Some 10000,
                map_c = fmupd ''a'' (10005, Some (1::nat)) fmempty, list_c = [(10005, ''a'')] \<rparr>"
  let ?empty = "\<lparr> ttl = 5, capacity = 3, interval = 10000, last_c = None,
                  map_c = (fmempty :: nat entries), list_c = [] \<rparr>"
  have l: "last_c ?one = Some 10000" by simp
  have i: "10010 - 10000 < interval ?one" by simp
  from scrub_rate_limited [OF l i, of "''a''" "Some 1" 10005 ?empty]
  show ?thesis by simp
qed

subsection \<open>\<open>set\<close> of a key that is live\<close>


lemma scrub_loop_dropWhile:
  "scrub_loop t m (dropWhile (\<lambda>(e, k). e \<le> t) l) = (m, dropWhile (\<lambda>(e, k). e \<le> t) l)"
  by (induction l) auto

lemma scrub_idem: "scrub t (scrub t c) = scrub t c"
proof (cases "t - (case last_c c of None \<Rightarrow> 0 | Some l \<Rightarrow> l) < interval c")
  case True
  then show ?thesis by (simp add: scrub_def)
next
  case False
  obtain m l where ml: "scrub_loop t (map_c c) (list_c c) = (m, l)"
    by (cases "scrub_loop t (map_c c) (list_c c)")
  then have "l = dropWhile (\<lambda>(e, k). e \<le> t) (list_c c)"
    using scrub_loop_list [of t "map_c c" "list_c c"] by simp
  then have "scrub_loop t m l = (m, l)" by (simp add: scrub_loop_dropWhile)
  with False ml show ?thesis by (simp add: scrub_def)
qed

lemma scrub_all_live:
  assumes "\<And>k e x. fmlookup (map_c c) k = Some (e, x) \<Longrightarrow> t < e"
  shows "map_c (scrub t c) = map_c c"
proof (rule fmap_ext)
  fix k
  show "fmlookup (map_c (scrub t c)) k = fmlookup (map_c c) k"
  proof (cases "fmlookup (map_c c) k")
    case None
    then show ?thesis by (simp add: scrub_lookup)
  next
    case (Some x)
    then have "fmlookup (map_c c) k = Some (fst x, snd x)" by simp
    then have "t < fst x" by (rule assms)
    with Some show ?thesis using scrub_live [of c k "fst x" "snd x" t] by simp
  qed
qed

text \<open>
  When the key is in the map with a value that is not nil and an expiration after \<open>now\<close>,
  \<open>set\<close> is \<open>scrub\<close> followed by the two stores: \<open>evict\<close> is not called.
\<close>

lemma set_c_live:
  assumes "fmlookup (map_c c) k = Some (e, Some w)" and "now < e"
  shows "set_c k v now c =
           (Inr (), (scrub now c)\<lparr> map_c := fmupd k (now + ttl c, v) (map_c (scrub now c)),
                                   list_c := list_c (scrub now c) @ [(now + ttl c, k)] \<rparr>)"
proof -
  have l: "fmlookup (map_c (scrub now c)) k = Some (e, Some w)"
    using assms by (rule scrub_live)
  have g: "get k now (scrub now c) = (Some w, scrub now c)"
    using l assms(2) by (simp add: get_def Let_def scrub_idem)
  show ?thesis
  proof (cases k v now c rule: set_c_cases)
    case not_full
    then show ?thesis by simp
  next
    case (live x c1)
    then show ?thesis using g by simp
  next
    case (evicted c1 c2)
    then show ?thesis using g by simp
  next
    case (failed c1 c2 err)
    then show ?thesis using g by simp
  qed
qed

text \<open>
  C6 (overwriting a live key does not evict), as the code has it. The claim as stated
  fails: \<open>set\<close> starts with \<open>scrub\<close>, which deletes other keys' expired entries, and
  \<open>set\<close> takes the key for live by \<open>isNil(this.get(key, now))\<close>, which a nil value
  fails. With the key in the map, its expiration after \<open>t\<close> and its value not nil,
  \<open>set(k, v', t)\<close> returns without calling \<open>evict\<close>: the ledger is the one \<open>scrub(t)\<close>
  leaves plus the new entry, and every other key has the map entry \<open>scrub(t)\<close> leaves
  it. So another key's entry with expiration after \<open>t\<close> is unchanged; and when every
  entry of the map has its expiration after \<open>t\<close>, or \<open>scrub\<close> is rate-limited, every
  other key's entry is unchanged and the map has the size it had.
\<close>

theorem overwrite_no_evict:
  fixes c :: "'v cache"
  assumes "fmlookup (map_c c) k = Some (e, Some w)" and "t < e"
  shows "fst (set_c k v' t c) = Inr () \<and>
         list_c (snd (set_c k v' t c)) = list_c (scrub t c) @ [(t + ttl c, k)] \<and>
         (k' \<noteq> k \<longrightarrow>
            fmlookup (map_c (snd (set_c k v' t c))) k' = fmlookup (map_c (scrub t c)) k') \<and>
         (k' \<noteq> k \<and> fmlookup (map_c c) k' = Some (e', x) \<and> t < e' \<longrightarrow>
            fmlookup (map_c (snd (set_c k v' t c))) k' = Some (e', x)) \<and>
         ((\<forall>k e x. fmlookup (map_c c) k = Some (e, x) \<longrightarrow> t < e) \<or>
          t - (case last_c c of None \<Rightarrow> 0 | Some l \<Rightarrow> l) < interval c \<longrightarrow>
            (k' \<noteq> k \<longrightarrow>
               fmlookup (map_c (snd (set_c k v' t c))) k' = fmlookup (map_c c) k') \<and>
            map_size (map_c (snd (set_c k v' t c))) = map_size (map_c c))"
proof -
  let ?s = "scrub t c"
  have eq: "set_c k v' t c =
      (Inr (), ?s\<lparr> map_c := fmupd k (t + ttl c, v') (map_c ?s),
                     list_c := list_c ?s @ [(t + ttl c, k)] \<rparr>)"
    using assms by (rule set_c_live)
  have 1: "fst (set_c k v' t c) = Inr ()" by (simp add: eq)
  have 2: "list_c (snd (set_c k v' t c)) = list_c ?s @ [(t + ttl c, k)]" by (simp add: eq)
  have 3: "k' \<noteq> k \<longrightarrow>
      fmlookup (map_c (snd (set_c k v' t c))) k' = fmlookup (map_c ?s) k'"
    by (simp add: eq)
  have 4: "k' \<noteq> k \<and> fmlookup (map_c c) k' = Some (e', x) \<and> t < e' \<longrightarrow>
      fmlookup (map_c (snd (set_c k v' t c))) k' = Some (e', x)"
    using scrub_live [of c k' e' x t] by (simp add: eq)
  have 5: "(k' \<noteq> k \<longrightarrow>
        fmlookup (map_c (snd (set_c k v' t c))) k' = fmlookup (map_c c) k') \<and>
      map_size (map_c (snd (set_c k v' t c))) = map_size (map_c c)"
    if m: "map_c ?s = map_c c"
  proof -
    have "map_size (fmupd k (t + ttl c, v') (map_c c)) = map_size (map_c c)"
      using assms(1) by (rule map_size_upd_same)
    then show ?thesis by (simp add: eq m)
  qed
  have 6: "map_c ?s = map_c c"
    if "(\<forall>k e x. fmlookup (map_c c) k = Some (e, x) \<longrightarrow> t < e) \<or>
      t - (case last_c c of None \<Rightarrow> 0 | Some l \<Rightarrow> l) < interval c"
    using that scrub_all_live [of c t] scrub_limited [of t c] by auto
  show ?thesis using 1 2 3 4 5 6 by blast
qed

theorem overwrite_no_evict_witness:
  "fst (set_c ''b'' (Some 3) 60000
     \<lparr> ttl = 60000, capacity = 2, interval = 10000, last_c = Some 50000,
       map_c = fmupd ''b'' (110000, Some (2::nat)) (fmupd ''a'' (60001, Some 1) fmempty),
       list_c = [(60001, ''a''), (110000, ''b'')] \<rparr>) = Inr () \<and>
   fmlookup (map_c (snd (set_c ''b'' (Some 3) 60000
     \<lparr> ttl = 60000, capacity = 2, interval = 10000, last_c = Some 50000,
       map_c = fmupd ''b'' (110000, Some (2::nat)) (fmupd ''a'' (60001, Some 1) fmempty),
       list_c = [(60001, ''a''), (110000, ''b'')] \<rparr>))) ''a'' = Some (60001, Some 1) \<and>
   map_size (map_c (snd (set_c ''b'' (Some 3) 60000
     \<lparr> ttl = 60000, capacity = 2, interval = 10000, last_c = Some 50000,
       map_c = fmupd ''b'' (110000, Some (2::nat)) (fmupd ''a'' (60001, Some 1) fmempty),
       list_c = [(60001, ''a''), (110000, ''b'')] \<rparr>))) = 2"
proof -
  let ?full = "\<lparr> ttl = 60000, capacity = 2, interval = 10000, last_c = Some 50000,
      map_c = fmupd ''b'' (110000, Some (2::nat)) (fmupd ''a'' (60001, Some 1) fmempty),
      list_c = [(60001, ''a''), (110000, ''b'')] \<rparr>"
  have l: "fmlookup (map_c ?full) ''b'' = Some (110000, Some 2)" by simp
  have t: "(60000::int) < 110000" by simp
  have a: "\<forall>k e x. fmlookup (map_c ?full) k = Some (e, x) \<longrightarrow> 60000 < e"
    by auto
  have s: "map_size (map_c ?full) = 2"
    by (simp add: map_size_def fcard_finsert_if)
  have d: "(\<forall>k e x. fmlookup (map_c ?full) k = Some (e, x) \<longrightarrow> 60000 < e) \<or>
      60000 - (case last_c ?full of None \<Rightarrow> 0 | Some l \<Rightarrow> l) < interval ?full"
    using a by blast
  have n: "''a'' \<noteq> ''b''" by simp
  have la: "fmlookup (map_c ?full) ''a'' = Some (60001, Some 1)" by simp
  have t': "(60000::int) < 60001" by simp
  note r = overwrite_no_evict [OF l t, of "Some 3" "''a''" 60001 "Some 1"]
  have 1: "fst (set_c ''b'' (Some 3) 60000 ?full) = Inr ()" using r by blast
  have 2: "fmlookup (map_c (snd (set_c ''b'' (Some 3) 60000 ?full))) ''a'' =
      Some (60001, Some 1)"
    using r n la t' by blast
  have 3: "map_size (map_c (snd (set_c ''b'' (Some 3) 60000 ?full))) = map_size (map_c ?full)"
    using r d by blast
  show ?thesis using 1 2 3 s by simp
qed

text \<open>
  C6 as stated fails on a cache reached from the constructor (capacity 2, \<open>ttl\<close> 60000,
  default \<open>interval\<close>) by \<open>set('a', 1)\<close> at 0 and \<open>set('b', 2)\<close> at 50000: the map is
  full and \<open>'b'\<close> is live at 60000, and \<open>set('b', 3)\<close> at 60000 leaves the map without
  \<open>'a'\<close> and with one entry, by the sweep of \<open>scrub\<close>. It also fails after
  \<open>set('b', 2)\<close> and \<open>set('a', undefined)\<close> at 0: \<open>set('a', 5)\<close> at 1 takes \<open>'a'\<close> for
  missing and evicts \<open>'b'\<close>.
\<close>

theorem overwrite_no_evict_counterexample:
  "int (map_size (map_c (run [Set ''a'' (Some (1::nat)) 0, Set ''b'' (Some 2) 50000]
      \<lparr> ttl = 60000, capacity = 2, interval = 10000, last_c = None,
        map_c = fmempty, list_c = [] \<rparr>))) = 2 \<and>
   fmlookup (map_c (run [Set ''a'' (Some (1::nat)) 0, Set ''b'' (Some 2) 50000]
      \<lparr> ttl = 60000, capacity = 2, interval = 10000, last_c = None,
        map_c = fmempty, list_c = [] \<rparr>)) ''b'' = Some (110000, Some 2) \<and>
   fmlookup (map_c (run [Set ''a'' (Some (1::nat)) 0, Set ''b'' (Some 2) 50000]
      \<lparr> ttl = 60000, capacity = 2, interval = 10000, last_c = None,
        map_c = fmempty, list_c = [] \<rparr>)) ''a'' = Some (60000, Some 1) \<and>
   fmlookup (map_c (run [Set ''a'' (Some (1::nat)) 0, Set ''b'' (Some 2) 50000,
        Set ''b'' (Some 3) 60000]
      \<lparr> ttl = 60000, capacity = 2, interval = 10000, last_c = None,
        map_c = fmempty, list_c = [] \<rparr>)) ''a'' = None \<and>
   int (map_size (map_c (run [Set ''a'' (Some (1::nat)) 0, Set ''b'' (Some 2) 50000,
        Set ''b'' (Some 3) 60000]
      \<lparr> ttl = 60000, capacity = 2, interval = 10000, last_c = None,
        map_c = fmempty, list_c = [] \<rparr>))) = 1 \<and>
   fmlookup (map_c (run [Set ''b'' (Some (2::nat)) 0, Set ''a'' None 0]
      \<lparr> ttl = 60000, capacity = 2, interval = 10000, last_c = None,
        map_c = fmempty, list_c = [] \<rparr>)) ''a'' = Some (60000, None) \<and>
   fmlookup (map_c (run [Set ''b'' (Some (2::nat)) 0, Set ''a'' None 0]
      \<lparr> ttl = 60000, capacity = 2, interval = 10000, last_c = None,
        map_c = fmempty, list_c = [] \<rparr>)) ''b'' = Some (60000, Some 2) \<and>
   fmlookup (map_c (run [Set ''b'' (Some (2::nat)) 0, Set ''a'' None 0, Set ''a'' (Some 5) 1]
      \<lparr> ttl = 60000, capacity = 2, interval = 10000, last_c = None,
        map_c = fmempty, list_c = [] \<rparr>)) ''b'' = None"
  by code_simp

subsection \<open>What a pass over the ledger deletes\<close>









subsection \<open>Filling an empty cache\<close>






subsection \<open>Which entry \<open>evict\<close> deletes\<close>






subsection \<open>One key more than the capacity\<close>











section \<open>Lemmas on JavaScript numbers\<close>

subsection \<open>Numbers\<close>

lemma number_plus [simp]:
  "Num a + Num b = Num (a + b)" "NaN + x = NaN" "x + NaN = NaN"
  by (auto simp: plus_number_def split: number.splits)

lemma number_minus [simp]:
  "Num a - Num b = Num (a - b)" "NaN - x = NaN" "x - NaN = NaN"
  by (auto simp: minus_number_def split: number.splits)

lemma number_less [simp]:
  "Num a < Num b \<longleftrightarrow> a < b" "\<not> NaN < x" "\<not> x < NaN"
  by (auto simp: less_number_def split: number.splits)

lemma number_less_eq [simp]:
  "Num a \<le> Num b \<longleftrightarrow> a \<le> b" "\<not> NaN \<le> x" "\<not> x \<le> NaN"
  by (auto simp: less_eq_number_def split: number.splits)

lemma strict_eq_iff: "strict_eq a b \<longleftrightarrow> a = b \<and> a \<noteq> NaN"
  by (auto simp: strict_eq_def split: number.splits)

lemma number_cases3: "x = NaN \<or> x \<le> Num 0 \<or> Num 0 < x"
  by (cases x) auto

lemma full_pos: "Num 0 < c \<Longrightarrow> c \<le> Num (of_nat n) \<Longrightarrow> 0 < n"
  by (cases c; cases n) auto

lemma within_mono:
  "m \<le> n \<Longrightarrow> Num (of_nat n) < c + Num 1 \<Longrightarrow> Num (of_nat m) < c + Num 1"
proof (cases c)
  case NaN
  then show "Num (of_nat n) < c + Num 1 \<Longrightarrow> Num (of_nat m) < c + Num 1" by simp
next
  case (Num q)
  assume "m \<le> n" and "Num (of_nat n) < c + Num 1"
  then have "(of_nat m :: rat) \<le> of_nat n" "of_nat n < q + 1" by (simp_all add: Num)
  then show "Num (of_nat m) < c + Num 1" by (simp add: Num)
qed

lemma within_step:
  assumes "\<not> c \<le> Num (of_nat n)" and "c \<noteq> NaN" and "m \<le> Suc n"
  shows "Num (of_nat m) < c + Num 1"
proof -
  obtain q where c: "c = Num q" using assms(2) by (cases c) auto
  have "(of_nat m :: rat) \<le> of_nat n + 1" using assms(3) of_nat_mono [of m "Suc n"] by simp
  moreover have "of_nat n < q" using assms(1) by (simp add: c)
  ultimately show ?thesis by (simp add: c)
qed

lemma within_not_NaN: "Num x < c + Num 1 \<Longrightarrow> c \<noteq> NaN"
  by auto

lemma within_int:
  "Num (of_nat n) < Num (of_int i) + Num 1 \<Longrightarrow> int n \<le> i"
proof -
  assume "Num (of_nat n) < Num (of_int i) + Num 1"
  then have "(of_int (int n) :: rat) < of_int (i + 1)" by simp
  then have "int n < i + 1" by (simp only: of_int_less_iff)
  then show ?thesis by simp
qed

subsection \<open>The map and the ledger entry swept, on numbers\<close>

lemma purge_lookup_n:
  "fmlookup (purge_n (e, k) m) k' =
     (if k' = k \<and> e \<noteq> NaN \<and> (\<exists>v. fmlookup m k = Some (e, v)) then None
      else fmlookup m k')"
  by (auto simp: purge_n_def strict_eq_iff split: option.splits)

lemma map_size_drop_le_n: "map_size_n (fmdrop k m) \<le> map_size_n m"
  by (simp add: map_size_n_def fcard_fminus1_le)

lemma map_size_drop_less_n: "fmlookup m k = Some x \<Longrightarrow> map_size_n (fmdrop k m) < map_size_n m"
  using fcard_fminus1_less [OF fmdomI, of m k x] by (simp add: map_size_n_def)

lemma map_size_upd_le_n: "map_size_n (fmupd k x m) \<le> Suc (map_size_n m)"
  by (simp add: map_size_n_def fcard_finsert_if)

lemma map_size_upd_same_n: "fmlookup m k = Some y \<Longrightarrow> map_size_n (fmupd k x m) = map_size_n m"
  by (simp add: map_size_n_def fcard_finsert_if fmdomI)

lemma map_size_purge_le_n: "map_size_n (purge_n x m) \<le> map_size_n m"
  by (cases x) (auto simp: purge_n_def map_size_drop_le_n split: option.splits)

lemma map_size_pos_lookup_n: "0 < map_size_n m \<Longrightarrow> \<exists>k x. fmlookup m k = Some x"
proof -
  assume "0 < map_size_n m"
  then have "fmdom m \<noteq> {||}" by (auto simp: map_size_n_def fcard_fempty)
  then obtain k where "k |\<in>| fmdom m" by auto
  then show ?thesis by (auto simp: fmlookup_dom_iff)
qed

lemma ledger_covers_iff_n:
  "ledger_covers_n m l \<longleftrightarrow>
     (\<forall>k e v. fmlookup m k = Some (e, v) \<longrightarrow> e \<noteq> NaN \<and> (e, k) \<in> set l)"
proof -
  have "list_ex (\<lambda>x. snd x = k \<and> strict_eq e (fst x)) l \<longleftrightarrow> e \<noteq> NaN \<and> (e, k) \<in> set l"
    for k e
    by (force simp: list_ex_iff strict_eq_iff)
  then show ?thesis by (simp add: ledger_covers_n_def fmpred_iff)
qed

lemma ledger_covers_purge_n:
  "ledger_covers_n m (x # l) \<Longrightarrow> ledger_covers_n (purge_n x m) l"
  by (cases x) (auto simp: ledger_covers_iff_n purge_lookup_n split: if_splits)

lemma ledger_covers_drop_n: "ledger_covers_n m l \<Longrightarrow> ledger_covers_n (fmdrop k m) l"
  by (auto simp: ledger_covers_iff_n split: if_splits)

lemma ledger_covers_mono_n: "ledger_covers_n m l \<Longrightarrow> set l \<subseteq> set l' \<Longrightarrow> ledger_covers_n m l'"
  by (auto simp: ledger_covers_iff_n)

lemma ledger_covers_upd_n:
  "ledger_covers_n m l \<Longrightarrow> e \<noteq> NaN \<Longrightarrow>
     ledger_covers_n (fmupd k (e, v) m) (l @ [(e, k)])"
  by (auto simp: ledger_covers_iff_n split: if_splits)

lemma ledger_covers_purge_same_n: "ledger_covers_n m l \<Longrightarrow> ledger_covers_n (purge_n x m) l"
  by (cases x) (auto simp: ledger_covers_iff_n purge_lookup_n split: if_splits)

lemma scrub_loop_covers_n:
  "ledger_covers_n m l \<Longrightarrow> scrub_loop_n t m l = (m', l') \<Longrightarrow> ledger_covers_n m' l'"
proof (induction t m l rule: scrub_loop_n.induct)
  case (1 t m)
  then show ?case by simp
next
  case (2 t m e k rest)
  show ?case
  proof (cases "e > t")
    case True
    with 2 show ?thesis by simp
  next
    case False
    with 2 show ?thesis by (simp add: ledger_covers_purge_n)
  qed
qed

lemma scrub_loop_size_n:
  "scrub_loop_n t m l = (m', l') \<Longrightarrow> map_size_n m' \<le> map_size_n m"
proof (induction t m l rule: scrub_loop_n.induct)
  case (1 t m)
  then show ?case by simp
next
  case (2 t m e k rest)
  then show ?case
    using map_size_purge_le_n [of "(e, k)" m] by (auto split: if_splits)
qed

subsection \<open>Fields that no operation changes, on numbers\<close>

lemma evict_loop_fields_n:
  "evict_loop_n c l = (c', r) \<Longrightarrow>
     ttl_n c' = ttl_n c \<and> capacity_n c' = capacity_n c \<and> interval_n c' = interval_n c \<and>
     last_n c' = last_n c \<and> list_n c' = list_n c"
proof (induction c l rule: evict_loop_n.induct)
  case (1 c)
  then show ?case by (auto split: if_splits)
next
  case (2 c e k rest)
  then show ?case by (auto split: if_splits)
qed

lemma evict_loop_size_n:
  "evict_loop_n c l = (c', r) \<Longrightarrow> map_size_n (map_n c') \<le> map_size_n (map_n c)"
proof (induction c l arbitrary: c' r rule: evict_loop_n.induct)
  case (1 c)
  then show ?case by (auto split: if_splits)
next
  case (2 c e k rest)
  show ?case
  proof (cases "isFull_n c")
    case True
    with 2 have "map_size_n (map_n c') \<le> map_size_n (purge_n (e, k) (map_n c))" by simp
    then show ?thesis using map_size_purge_le_n [of "(e, k)" "map_n c"] by simp
  next
    case False
    with 2 show ?thesis by simp
  qed
qed

lemma evict_loop_covers_any_n:
  "ledger_covers_n (map_n c) l0 \<Longrightarrow> evict_loop_n c l = (c', r) \<Longrightarrow> ledger_covers_n (map_n c') l0"
proof (induction c l arbitrary: c' r rule: evict_loop_n.induct)
  case (1 c)
  then show ?case by (auto split: if_splits)
next
  case (2 c e k rest)
  then show ?case by (auto split: if_splits simp: ledger_covers_purge_same_n)
qed

text \<open>
  With every map entry covered by the part of the list not yet walked and a positive
  capacity, the loop of \<open>evict_n\<close> ends before the end of the list: a full map is not empty,
  and its entries are still ahead.
\<close>

lemma evict_loop_ok_n:
  "ledger_covers_n (map_n c) l \<Longrightarrow> Num 0 < capacity_n c \<Longrightarrow>
     \<exists>c' rest. evict_loop_n c l = (c', Some rest) \<and> \<not> isFull_n c' \<and>
       ledger_covers_n (map_n c') rest"
proof (induction c l rule: evict_loop_n.induct)
  case (1 c)
  have "\<not> isFull_n c"
  proof
    assume "isFull_n c"
    with 1 have "0 < map_size_n (map_n c)" using full_pos by (auto simp: isFull_n_def)
    then obtain k x where "fmlookup (map_n c) k = Some x"
      using map_size_pos_lookup_n by blast
    with 1 show False by (cases x) (auto simp: ledger_covers_iff_n)
  qed
  with 1 show ?case by simp
next
  case (2 c e k rest)
  show ?case
  proof (cases "isFull_n c")
    case True
    let ?c = "c\<lparr> map_n := purge_n (e, k) (map_n c) \<rparr>"
    have "ledger_covers_n (map_n ?c) rest" using 2 by (simp add: ledger_covers_purge_n)
    moreover have "Num 0 < capacity_n ?c" using 2 by simp
    ultimately show ?thesis using 2 True by simp
  next
    case False
    with 2 show ?thesis by simp
  qed
qed

lemma evict_fields_n:
  "evict_n c = (r, c') \<Longrightarrow>
     ttl_n c' = ttl_n c \<and> capacity_n c' = capacity_n c \<and> interval_n c' = interval_n c \<and>
     last_n c' = last_n c"
  by (auto simp: evict_n_def split: prod.splits option.splits dest: evict_loop_fields_n)

lemma evict_ok_n:
  assumes "ledger_covers_n (map_n c) (list_n c)" and "Num 0 < capacity_n c"
  shows "\<exists>c'. evict_n c = (Inr (), c') \<and> \<not> isFull_n c' \<and>
           ledger_covers_n (map_n c') (list_n c')"
proof -
  obtain c1 rest where "evict_loop_n c (list_n c) = (c1, Some rest)" "\<not> isFull_n c1"
      "ledger_covers_n (map_n c1) rest"
    using evict_loop_ok_n [OF assms] by blast
  then show ?thesis by (simp add: evict_n_def isFull_n_def)
qed

lemma evict_loop_covers_rest_n:
  "ledger_covers_n (map_n c) l \<Longrightarrow> evict_loop_n c l = (c', Some rest) \<Longrightarrow>
     ledger_covers_n (map_n c') rest"
proof (induction c l arbitrary: c' rest rule: evict_loop_n.induct)
  case (1 c)
  then show ?case by (auto split: if_splits)
next
  case (2 c e k rest0)
  then show ?case by (auto split: if_splits simp: ledger_covers_purge_n)
qed

lemma evict_covers_n:
  assumes "ledger_covers_n (map_n c) (list_n c)"
  shows "ledger_covers_n (map_n (snd (evict_n c))) (list_n (snd (evict_n c)))"
proof (cases "evict_loop_n c (list_n c)")
  case (Pair c1 r)
  show ?thesis
  proof (cases r)
    case None
    with Pair assms show ?thesis
      using evict_loop_covers_any_n [of c "list_n c" "list_n c" c1 r] evict_loop_fields_n [of c "list_n c" c1 r]
      by (simp add: evict_n_def)
  next
    case (Some rest)
    with Pair assms show ?thesis
      using evict_loop_covers_rest_n [of c "list_n c" c1 rest] by (simp add: evict_n_def)
  qed
qed

lemma evict_size_n: "map_size_n (map_n (snd (evict_n c))) \<le> map_size_n (map_n c)"
proof (cases "evict_loop_n c (list_n c)")
  case (Pair c1 r)
  then show ?thesis
    using evict_loop_size_n [of c "list_n c" c1 r] by (cases r) (simp_all add: evict_n_def)
qed

subsection \<open>\<open>scrub_n\<close>, \<open>get_n\<close> and \<open>set_n\<close>\<close>

lemma scrub_fields_n:
  "ttl_n (scrub_n now c) = ttl_n c \<and> capacity_n (scrub_n now c) = capacity_n c \<and>
   interval_n (scrub_n now c) = interval_n c"
  by (simp add: scrub_n_def split: prod.splits)

lemma scrub_covers_n:
  "ledger_covers_n (map_n c) (list_n c) \<Longrightarrow>
     ledger_covers_n (map_n (scrub_n now c)) (list_n (scrub_n now c))"
  by (auto simp: scrub_n_def split: prod.splits dest: scrub_loop_covers_n)

lemma scrub_size_n: "map_size_n (map_n (scrub_n now c)) \<le> map_size_n (map_n c)"
  by (auto simp: scrub_n_def split: prod.splits dest: scrub_loop_size_n)

lemma purge_lookup_sub_n:
  "fmlookup (purge_n x m) k = Some y \<Longrightarrow> fmlookup m k = Some y"
  by (cases x) (auto simp: purge_lookup_n split: if_splits)

lemma scrub_loop_lookup_sub_n:
  "scrub_loop_n t m l = (m', l') \<Longrightarrow> fmlookup m' k = Some y \<Longrightarrow> fmlookup m k = Some y"
proof (induction t m l rule: scrub_loop_n.induct)
  case (1 t m)
  then show ?case by simp
next
  case (2 t m e k' rest)
  then show ?case by (auto split: if_splits dest: purge_lookup_sub_n)
qed

lemma scrub_lookup_sub_n:
  "fmlookup (map_n (scrub_n now c)) k = Some y \<Longrightarrow> fmlookup (map_n c) k = Some y"
  by (auto simp: scrub_n_def split: if_splits prod.splits dest: scrub_loop_lookup_sub_n)

lemma get_fields_n:
  "ttl_n (snd (get_n k now c)) = ttl_n c \<and> capacity_n (snd (get_n k now c)) = capacity_n c \<and>
   interval_n (snd (get_n k now c)) = interval_n c"
  by (simp add: get_n_def Let_def scrub_fields_n split: option.splits)

lemma get_covers_n:
  "ledger_covers_n (map_n c) (list_n c) \<Longrightarrow>
     ledger_covers_n (map_n (snd (get_n k now c))) (list_n (snd (get_n k now c)))"
  using scrub_covers_n [of c now]
  by (auto simp: get_n_def Let_def ledger_covers_drop_n split: option.splits)

lemma get_size_n: "map_size_n (map_n (snd (get_n k now c))) \<le> map_size_n (map_n c)"
  using scrub_size_n [of now c] map_size_drop_le_n [of k "map_n (scrub_n now c)"]
  by (auto simp: get_n_def Let_def split: option.splits)

lemma evict_loop_not_full_n:
  "evict_loop_n c l = (c', Some rest) \<Longrightarrow> \<not> isFull_n c'"
proof (induction c l arbitrary: c' rest rule: evict_loop_n.induct)
  case (1 c)
  then show ?case by (auto split: if_splits)
next
  case (2 c e k rest0)
  then show ?case by (auto split: if_splits)
qed

lemma evict_not_full_n: "evict_n c = (Inr (), c') \<Longrightarrow> \<not> isFull_n c'"
  by (auto simp: evict_n_def isFull_n_def split: prod.splits option.splits
        dest!: evict_loop_not_full_n)

text \<open>The four paths through \<open>set_n\<close>.\<close>

lemma set_cases_n [case_names not_full live evicted failed]:
  fixes c :: "'v cache_n"
  assumes "\<not> isFull_n (scrub_n now c) \<Longrightarrow>
      set_n k v now c =
        (Inr (), (scrub_n now c)\<lparr> map_n := fmupd k (now + ttl_n c, v) (map_n (scrub_n now c)),
                                list_n := list_n (scrub_n now c) @ [(now + ttl_n c, k)] \<rparr>) \<Longrightarrow> P"
    and "\<And>x c1. isFull_n (scrub_n now c) \<Longrightarrow> get_n k now (scrub_n now c) = (Some x, c1) \<Longrightarrow>
      set_n k v now c =
        (Inr (), c1\<lparr> map_n := fmupd k (now + ttl_n c, v) (map_n c1),
                      list_n := list_n c1 @ [(now + ttl_n c, k)] \<rparr>) \<Longrightarrow> P"
    and "\<And>c1 c2. isFull_n (scrub_n now c) \<Longrightarrow> get_n k now (scrub_n now c) = (None, c1) \<Longrightarrow>
      evict_n c1 = (Inr (), c2) \<Longrightarrow>
      set_n k v now c =
        (Inr (), c2\<lparr> map_n := fmupd k (now + ttl_n c, v) (map_n c2),
                      list_n := list_n c2 @ [(now + ttl_n c, k)] \<rparr>) \<Longrightarrow> P"
    and "\<And>c1 c2 e. isFull_n (scrub_n now c) \<Longrightarrow> get_n k now (scrub_n now c) = (None, c1) \<Longrightarrow>
      evict_n c1 = (Inl e, c2) \<Longrightarrow> set_n k v now c = (Inl e, c2) \<Longrightarrow> P"
  shows P
proof (cases "isFull_n (scrub_n now c)")
  case False
  then show ?thesis using assms(1) by (simp add: set_n_def Let_def scrub_fields_n)
next
  case True
  obtain r c1 where g: "get_n k now (scrub_n now c) = (r, c1)" by (cases "get_n k now (scrub_n now c)")
  then have t1: "ttl_n c1 = ttl_n c" using get_fields_n [of k now "scrub_n now c"] by (simp add: scrub_fields_n)
  show ?thesis
  proof (cases r)
    case (Some x)
    with g have g': "get_n k now (scrub_n now c) = (Some x, c1)" by simp
    show ?thesis
      by (rule assms(2) [OF True g']) (simp add: set_n_def Let_def True g' t1)
  next
    case None
    with g have g': "get_n k now (scrub_n now c) = (None, c1)" by simp
    obtain r2 c2 where e: "evict_n c1 = (r2, c2)" by (cases "evict_n c1")
    then have t2: "ttl_n c2 = ttl_n c" using evict_fields_n [of c1 r2 c2] t1 by simp
    show ?thesis
    proof (cases r2)
      case (Inl err)
      with e have e': "evict_n c1 = (Inl err, c2)" by simp
      show ?thesis
        by (rule assms(4) [OF True g' e']) (simp add: set_n_def Let_def True g' e')
    next
      case (Inr u)
      with e have e': "evict_n c1 = (Inr (), c2)" by simp
      show ?thesis
        by (rule assms(3) [OF True g' e']) (simp add: set_n_def Let_def True g' e' t2)
    qed
  qed
qed

lemma set_fields_n:
  "ttl_n (snd (set_n k v now c)) = ttl_n c \<and> capacity_n (snd (set_n k v now c)) = capacity_n c \<and>
   interval_n (snd (set_n k v now c)) = interval_n c"
proof (cases k v now c rule: set_cases_n)
  case not_full
  then show ?thesis by (simp add: scrub_fields_n)
next
  case (live x c1)
  then show ?thesis using get_fields_n [of k now "scrub_n now c"] by (simp add: scrub_fields_n)
next
  case (evicted c1 c2)
  then show ?thesis
    using get_fields_n [of k now "scrub_n now c"] evict_fields_n [of c1 "Inr ()" c2]
    by (simp add: scrub_fields_n)
next
  case (failed c1 c2 e)
  then show ?thesis
    using get_fields_n [of k now "scrub_n now c"] evict_fields_n [of c1 "Inl e" c2]
    by (simp add: scrub_fields_n)
qed

lemma number_sum_valid: "now \<noteq> NaN \<Longrightarrow> d \<noteq> NaN \<Longrightarrow> now + d \<noteq> NaN"
  by (cases now; cases d) auto

lemma set_covers_n:
  assumes "ledger_covers_n (map_n c) (list_n c)" and "now \<noteq> NaN" and "ttl_n c \<noteq> NaN"
  shows "ledger_covers_n (map_n (snd (set_n k v now c))) (list_n (snd (set_n k v now c)))"
proof -
  have s: "ledger_covers_n (map_n (scrub_n now c)) (list_n (scrub_n now c))"
    using assms(1) by (rule scrub_covers_n)
  have e: "now + ttl_n c \<noteq> NaN" using assms(2,3) by (rule number_sum_valid)
  show ?thesis
  proof (cases k v now c rule: set_cases_n)
    case not_full
    then show ?thesis using s e by (simp add: ledger_covers_upd_n)
  next
    case (live x c1)
    then show ?thesis using get_covers_n [OF s, of k now] e by (simp add: ledger_covers_upd_n)
  next
    case (evicted c1 c2)
    then show ?thesis
      using evict_covers_n [of c1] get_covers_n [OF s, of k now] e
      by (simp add: ledger_covers_upd_n)
  next
    case (failed c1 c2 e)
    then show ?thesis
      using evict_covers_n [of c1] get_covers_n [OF s, of k now] by simp
  qed
qed

text \<open>\<open>set_n\<close> does not throw on a cache whose map is covered by its ledger.\<close>

lemma set_ok_n:
  assumes "ledger_covers_n (map_n c) (list_n c)" and "Num 0 < capacity_n c"
  shows "fst (set_n k v now c) = Inr ()"
proof (cases k v now c rule: set_cases_n)
  case (failed c1 c2 e)
  have "ledger_covers_n (map_n c1) (list_n c1)"
    using get_covers_n [OF scrub_covers_n [OF assms(1)], of k now now] failed by simp
  moreover have "Num 0 < capacity_n c1"
    using get_fields_n [of k now "scrub_n now c"] failed assms(2) by (simp add: scrub_fields_n)
  ultimately show ?thesis using evict_ok_n [of c1] failed by auto
qed simp_all

text \<open>\<open>set_n\<close> leaves fewer than \<open>capacity + 1\<close> entries in the map.\<close>

lemma get_hit_n:
  "get_n k now c = (Some x, c1) \<Longrightarrow> \<exists>y. fmlookup (map_n c1) k = Some y"
  by (auto simp: get_n_def Let_def split: option.splits if_splits)

lemma set_size_n:
  assumes "Num (of_nat (map_size_n (map_n c))) < capacity_n c + Num 1"
  shows "Num (of_nat (map_size_n (map_n (snd (set_n k v now c))))) < capacity_n c + Num 1"
proof (cases k v now c rule: set_cases_n)
  case not_full
  have "\<not> capacity_n c \<le> Num (of_nat (map_size_n (map_n (scrub_n now c))))"
    using not_full(1) by (simp add: isFull_n_def scrub_fields_n)
  moreover have "capacity_n c \<noteq> NaN" using assms by (rule within_not_NaN)
  ultimately have "Num (of_nat (map_size_n (fmupd k (now + ttl_n c, v) (map_n (scrub_n now c)))))
      < capacity_n c + Num 1"
    using map_size_upd_le_n [of k "(now + ttl_n c, v)" "map_n (scrub_n now c)"]
    by (rule within_step)
  then show ?thesis by (simp add: not_full(2))
next
  case (live x c1)
  then obtain y where "fmlookup (map_n c1) k = Some y"
    using get_hit_n [of k now "scrub_n now c" x c1] by auto
  then have "map_size_n (fmupd k (now + ttl_n c, v) (map_n c1)) = map_size_n (map_n c1)"
    by (rule map_size_upd_same_n)
  moreover have "map_size_n (map_n c1) \<le> map_size_n (map_n c)"
    using get_size_n [of k now "scrub_n now c"] scrub_size_n [of now c] live by simp
  ultimately have "map_size_n (map_n (snd (set_n k v now c))) \<le> map_size_n (map_n c)"
    by (simp add: live(3))
  then show ?thesis using assms by (rule within_mono)
next
  case (evicted c1 c2)
  have "capacity_n c1 = capacity_n c"
    using get_fields_n [of k now "scrub_n now c"] evicted by (simp add: scrub_fields_n)
  moreover have "\<not> isFull_n c2 \<and> capacity_n c2 = capacity_n c1"
    using evicted evict_fields_n [of c1 "Inr ()" c2] evict_not_full_n [of c1 c2] by simp
  ultimately have "\<not> capacity_n c \<le> Num (of_nat (map_size_n (map_n c2)))"
    by (auto simp: isFull_n_def)
  moreover have "capacity_n c \<noteq> NaN" using assms by (rule within_not_NaN)
  ultimately have "Num (of_nat (map_size_n (fmupd k (now + ttl_n c, v) (map_n c2))))
      < capacity_n c + Num 1"
    using map_size_upd_le_n [of k "(now + ttl_n c, v)" "map_n c2"]
    by (rule within_step)
  then show ?thesis by (simp add: evicted(4))
next
  case (failed c1 c2 e)
  have "map_size_n (map_n c2) \<le> map_size_n (map_n c1)"
    using evict_size_n [of c1] failed by simp
  moreover have "map_size_n (map_n c1) \<le> map_size_n (map_n c)"
    using get_size_n [of k now "scrub_n now c"] scrub_size_n [of now c] failed by simp
  ultimately have "map_size_n (map_n (snd (set_n k v now c))) \<le> map_size_n (map_n c)"
    by (simp add: failed(4))
  then show ?thesis using assms by (rule within_mono)
qed

subsection \<open>Calls and sequences of calls, on numbers\<close>

lemma snd_exec_n:
  "snd (exec_n (Set_n k v now) c) = snd (set_n k v now c)"
  "snd (exec_n (Get_n k now) c) = snd (get_n k now c)"
  "snd (exec_n IsFull_n c) = c"
  "snd (exec_n (Scrub_n now) c) = scrub_n now c"
  "snd (exec_n Evict_n c) = snd (evict_n c)"
  by (auto split: prod.splits sum.splits)

lemma fst_exec_Set_n: "fst (exec_n (Set_n k v now) c) = Inr Self \<longleftrightarrow> fst (set_n k v now c) = Inr ()"
  by (auto split: prod.splits sum.splits)

lemma fst_exec_Evict_n: "fst (exec_n Evict_n c) = Inr Void \<longleftrightarrow> fst (evict_n c) = Inr ()"
  by (auto split: prod.splits sum.splits)

lemma exec_fields_n:
  "ttl_n (snd (exec_n x c)) = ttl_n c \<and> capacity_n (snd (exec_n x c)) = capacity_n c \<and>
   interval_n (snd (exec_n x c)) = interval_n c"
proof (cases x)
  case (Set_n k v now)
  then show ?thesis using set_fields_n [of k v now c] by (simp only: snd_exec_n)
next
  case (Get_n k now)
  then show ?thesis using get_fields_n [of k now c] by (simp only: snd_exec_n)
next
  case IsFull_n
  then show ?thesis by simp
next
  case (Scrub_n now)
  then show ?thesis by (simp add: scrub_fields_n)
next
  case Evict_n
  then show ?thesis
    using evict_fields_n [of c "fst (evict_n c)" "snd (evict_n c)"] by (simp add: snd_exec_n del: exec_n.simps)
qed

lemma exec_covers_n:
  assumes "ledger_covers_n (map_n c) (list_n c)" and "ttl_n c \<noteq> NaN"
    and "\<forall>k v. x \<noteq> Set_n k v NaN"
  shows "ledger_covers_n (map_n (snd (exec_n x c))) (list_n (snd (exec_n x c)))"
proof (cases x)
  case (Set_n k v now)
  then have "now \<noteq> NaN" using assms(3) by auto
  with assms(1) have "ledger_covers_n (map_n (snd (set_n k v now c)))
      (list_n (snd (set_n k v now c)))"
    using assms(2) by (rule set_covers_n)
  then show ?thesis by (simp only: Set_n snd_exec_n)
next
  case (Get_n k now)
  then show ?thesis using get_covers_n [OF assms(1), of k now] by (simp only: snd_exec_n)
next
  case IsFull_n
  then show ?thesis using assms(1) by simp
next
  case (Scrub_n now)
  then show ?thesis using scrub_covers_n [OF assms(1)] by simp
next
  case Evict_n
  then show ?thesis using evict_covers_n [OF assms(1)] by (simp only: snd_exec_n)
qed

lemma exec_size_n:
  assumes "Num (of_nat (map_size_n (map_n c))) < capacity_n c + Num 1"
  shows "Num (of_nat (map_size_n (map_n (snd (exec_n x c))))) < capacity_n c + Num 1"
proof (cases x)
  case (Set_n k v now)
  then show ?thesis
    using set_size_n [OF assms, of k v now] by (simp only: snd_exec_n)
next
  case (Get_n k now)
  then show ?thesis
    using within_mono [OF get_size_n [of k now c] assms] by (simp only: snd_exec_n)
next
  case IsFull_n
  then show ?thesis using assms by simp
next
  case (Scrub_n now)
  then show ?thesis
    using within_mono [OF scrub_size_n [of now c] assms] by (simp only: snd_exec_n)
next
  case Evict_n
  then show ?thesis
    using within_mono [OF evict_size_n [of c] assms] by (simp only: snd_exec_n)
qed

lemma exec_ok_n:
  assumes "ledger_covers_n (map_n c) (list_n c)" and "Num 0 < capacity_n c"
  shows "\<exists>r. fst (exec_n x c) = Inr r"
proof (cases x)
  case (Set_n k v now)
  then show ?thesis
    using set_ok_n [OF assms, of k v now] fst_exec_Set_n [of k v now c] by blast
next
  case (Get_n k now)
  then show ?thesis by (simp split: prod.splits)
next
  case IsFull_n
  then show ?thesis by simp
next
  case (Scrub_n now)
  then show ?thesis by simp
next
  case Evict_n
  then show ?thesis using evict_ok_n [OF assms] fst_exec_Evict_n [of c] by fastforce
qed

lemma run_append_n: "run_n (xs @ ys) c = run_n ys (run_n xs c)"
  by (induction xs arbitrary: c) simp_all

lemma run_ttl_n: "ttl_n (run_n xs c) = ttl_n c"
  by (induction xs arbitrary: c) (simp_all add: exec_fields_n)

lemma run_capacity_n: "capacity_n (run_n xs c) = capacity_n c"
  by (induction xs arbitrary: c) (simp_all add: exec_fields_n)

lemma run_ttl_valid_n: "ttl_n c \<noteq> NaN \<Longrightarrow> ttl_n (run_n xs c) \<noteq> NaN"
  by (simp add: run_ttl_n)

lemma run_covers_n:
  "ledger_covers_n (map_n c) (list_n c) \<Longrightarrow> ttl_n c \<noteq> NaN \<Longrightarrow>
     \<forall>k v. Set_n k v NaN \<notin> set xs \<Longrightarrow>
     ledger_covers_n (map_n (run_n xs c)) (list_n (run_n xs c))"
proof (induction xs arbitrary: c)
  case Nil
  then show ?case by simp
next
  case (Cons x xs)
  have "\<forall>k v. x \<noteq> Set_n k v NaN" using Cons.prems(3) by auto
  then have "ledger_covers_n (map_n (snd (exec_n x c))) (list_n (snd (exec_n x c)))"
    using exec_covers_n [OF Cons.prems(1,2)] by blast
  moreover have "ttl_n (snd (exec_n x c)) \<noteq> NaN"
    using Cons.prems(2) by (simp add: exec_fields_n)
  moreover have "\<forall>k v. Set_n k v NaN \<notin> set xs" using Cons.prems(3) by auto
  ultimately show ?case using Cons.IH by simp
qed

lemma run_size_n:
  "Num (of_nat (map_size_n (map_n c))) < capacity_n c + Num 1 \<Longrightarrow>
     Num (of_nat (map_size_n (map_n (run_n xs c)))) < capacity_n c + Num 1"
proof (induction xs arbitrary: c)
  case Nil
  then show ?case by simp
next
  case (Cons x xs)
  have "Num (of_nat (map_size_n (map_n (snd (exec_n x c))))) < capacity_n (snd (exec_n x c)) + Num 1"
    using exec_size_n [OF Cons.prems, of x] by (simp add: exec_fields_n)
  from Cons.IH [OF this] show ?case by (simp add: exec_fields_n)
qed

lemma new_Inr_n:
  "new_n opts = Inr c0 \<Longrightarrow>
     Num 0 < capacity_n c0 \<and> capacity_n c0 = capacity_opt opts \<and> Num 0 < ttl_n c0 \<and>
     map_n c0 = fmempty \<and> list_n c0 = []"
  by (auto simp: new_n_def split: if_splits)

lemma new_covers_n: "new_n opts = Inr c0 \<Longrightarrow> ledger_covers_n (map_n c0) (list_n c0)"
  by (auto simp: new_n_def ledger_covers_n_def split: if_splits)

lemma new_size_n:
  "new_n opts = Inr c0 \<Longrightarrow> Num (of_nat (map_size_n (map_n c0))) < capacity_n c0 + Num 1"
  by (cases "capacity_opt opts")
    (auto simp: new_n_def map_size_n_def fcard_fempty split: if_splits)

section \<open>The two embeddings on integers\<close>

text \<open>
  On integers the two embeddings are the same code: with every integer taken for the
  number it is, the constructor and every operation of the first give what those of the
  second give, result and cache, and the correspondence of map and ledger is the same.
\<close>

lemma num_of_less [simp]: "num_of a < num_of b \<longleftrightarrow> a < b"
  by (simp add: num_of_def)

lemma num_of_less_eq [simp]: "num_of a \<le> num_of b \<longleftrightarrow> a \<le> b"
  by (simp add: num_of_def)

lemma num_of_strict_eq [simp]: "strict_eq (num_of a) (num_of b) \<longleftrightarrow> a = b"
  by (simp add: num_of_def strict_eq_iff)

lemma num_of_plus [simp]: "num_of a + num_of b = num_of (a + b)"
  by (simp add: num_of_def)

lemma num_of_minus [simp]: "num_of a - num_of b = num_of (a - b)"
  by (simp add: num_of_def)

lemma num_of_numeral: "Num 0 = num_of 0" "Num 10000 = num_of 10000"
  by (simp_all add: num_of_def)

lemma num_of_nat: "Num (of_nat n) = num_of (int n)"
  by (simp add: num_of_def)

lemma lookup_entries_of [simp]:
  "fmlookup (entries_of m) k = map_option (\<lambda>item. (num_of (fst item), snd item)) (fmlookup m k)"
  by (simp add: entries_of_def)

lemma entries_of_drop: "fmdrop k (entries_of m) = entries_of (fmdrop k m)"
  by (rule fmap_ext) simp

lemma entries_of_upd:
  "fmupd k (num_of e, v) (entries_of m) = entries_of (fmupd k (e, v) m)"
  by (rule fmap_ext) simp

lemma entries_of_empty [simp]: "entries_of fmempty = fmempty"
  by (rule fmap_ext) simp

lemma map_size_entries_of [simp]: "map_size_n (entries_of m) = map_size m"
  by (simp add: map_size_n_def map_size_def entries_of_def)

lemma isFull_cache_of [simp]: "isFull_n (cache_of c) = isFull c"
  by (simp add: isFull_n_def isFull_def cache_of_def num_of_nat)

lemma purge_entries_of:
  "purge_n (num_of e, k) (entries_of m) = entries_of (purge (e, k) m)"
  by (simp add: purge_n_def purge_def entries_of_drop split: option.splits)

lemma scrub_loop_of:
  "scrub_loop_n (num_of t) (entries_of m) (ledger_of l) =
     map_prod entries_of ledger_of (scrub_loop t m l)"
proof (induction t m l rule: scrub_loop.induct)
  case (1 timestamp m)
  then show ?case by (simp add: ledger_of_def)
next
  case (2 timestamp m expiration key rest)
  then show ?case by (simp add: ledger_of_def purge_entries_of)
qed

lemma last_of:
  "(case map_option num_of l of None \<Rightarrow> Num 0 | Some x \<Rightarrow> x) =
     num_of (case l of None \<Rightarrow> 0 | Some x \<Rightarrow> x)"
  by (simp add: num_of_numeral split: option.splits)

lemma scrub_of: "scrub_n (num_of now) (cache_of c) = cache_of (scrub now c)"
proof (cases "scrub_loop now (map_c c) (list_c c)")
  case (Pair m l)
  then have "scrub_loop_n (num_of now) (entries_of (map_c c)) (ledger_of (list_c c)) =
      (entries_of m, ledger_of l)"
    by (simp add: scrub_loop_of)
  then have n: "scrub_loop_n (num_of now) (map_n (cache_of c)) (list_n (cache_of c)) =
      (entries_of m, ledger_of l)"
    by (simp add: cache_of_def)
  have i: "interval_n (cache_of c) = num_of (interval c)"
    and la: "last_n (cache_of c) = map_option num_of (last_c c)"
    by (simp_all add: cache_of_def)
  show ?thesis
    unfolding scrub_n_def scrub_def n i la last_of Pair
    by (simp add: cache_of_def)
qed


lemma cache_of_fields [simp]:
  "ttl_n (cache_of c) = num_of (ttl c)"
  "capacity_n (cache_of c) = num_of (capacity c)"
  "interval_n (cache_of c) = num_of (interval c)"
  "last_n (cache_of c) = map_option num_of (last_c c)"
  "map_n (cache_of c) = entries_of (map_c c)"
  "list_n (cache_of c) = ledger_of (list_c c)"
  by (simp_all add: cache_of_def)

lemma cache_of_map_update:
  "cache_of c\<lparr> map_n := entries_of m \<rparr> = cache_of (c\<lparr> map_c := m \<rparr>)"
  by (simp add: cache_of_def)

lemma cache_of_list_update:
  "cache_of c\<lparr> list_n := ledger_of l \<rparr> = cache_of (c\<lparr> list_c := l \<rparr>)"
  by (simp add: cache_of_def)

lemma evict_loop_of:
  "evict_loop_n (cache_of c) (ledger_of l) =
     map_prod cache_of (map_option ledger_of) (evict_loop c l)"
proof (induction c l rule: evict_loop.induct)
  case (1 c)
  then show ?case by (simp add: ledger_of_def)
next
  case (2 c expiration key rest)
  have "evict_loop_n (cache_of c) (ledger_of ((expiration, key) # rest)) =
      (if isFull c
       then evict_loop_n (cache_of (c\<lparr> map_c := purge (expiration, key) (map_c c) \<rparr>))
              (ledger_of rest)
       else (cache_of c, Some (ledger_of ((expiration, key) # rest))))"
    by (simp add: ledger_of_def purge_entries_of cache_of_map_update)
  with 2 show ?case by simp
qed

lemma evict_of: "evict_n (cache_of c) = map_prod id cache_of (evict c)"
proof (cases "evict_loop c (list_c c)")
  case (Pair c' r)
  then have "evict_loop_n (cache_of c) (list_n (cache_of c)) = (cache_of c', map_option ledger_of r)"
    using evict_loop_of [of c "list_c c"] by simp
  then show ?thesis
    using Pair by (cases r) (simp_all add: evict_n_def evict_def cache_of_list_update)
qed

lemma get_of:
  "get_n key (num_of now) (cache_of c) = map_prod id cache_of (get key now c)"
proof -
  have d: "cache_of c'\<lparr> map_n := fmdrop key (entries_of (map_c c')) \<rparr> =
      cache_of (c'\<lparr> map_c := fmdrop key (map_c c') \<rparr>)" for c' :: "'a cache"
    by (simp add: entries_of_drop cache_of_map_update)
  show ?thesis
    by (simp add: get_n_def get_def scrub_of Let_def d split: option.splits)
qed

lemma set_of:
  "set_n key val (num_of now) (cache_of c) = map_prod id cache_of (set_c key val now c)"
proof -
  define c1 where "c1 = scrub now c"
  have s: "scrub_n (num_of now) (cache_of c) = cache_of c1"
    by (simp add: scrub_of c1_def)
  obtain r c2 where rc: "(if isFull c1
      then (case get key now c1 of (got, c) \<Rightarrow> if isNil got then evict c else (Inr (), c))
      else (Inr (), c1)) = (r, c2)"
    by (cases "(if isFull c1
      then (case get key now c1 of (got, c) \<Rightarrow> if isNil got then evict c else (Inr (), c))
      else (Inr (), c1))") auto
  have rn: "(if isFull_n (cache_of c1)
      then (case get_n key (num_of now) (cache_of c1) of
              (got, c) \<Rightarrow> if isNil got then evict_n c else (Inr (), c))
      else (Inr (), cache_of c1)) = (r, cache_of c2)"
    using rc by (auto simp: get_of evict_of split: prod.splits if_splits)
  have u: "cache_of c2\<lparr> map_n := fmupd key (num_of (now + ttl c2), val) (entries_of (map_c c2)),
        list_n := ledger_of (list_c c2) @ [(num_of (now + ttl c2), key)] \<rparr> =
      cache_of (c2\<lparr> map_c := fmupd key (now + ttl c2, val) (map_c c2),
        list_c := list_c c2 @ [(now + ttl c2, key)] \<rparr>)"
    by (simp add: cache_of_def entries_of_upd ledger_of_def)
  have "set_n key val (num_of now) (cache_of c) =
      (case r of Inl e \<Rightarrow> (Inl e, cache_of c2)
       | Inr _ \<Rightarrow> (Inr (), cache_of c2\<lparr> map_n := fmupd key (num_of now + ttl_n (cache_of c2), val)
             (map_n (cache_of c2)),
           list_n := list_n (cache_of c2) @ [(num_of now + ttl_n (cache_of c2), key)] \<rparr>))"
    unfolding set_n_def s Let_def rn by simp
  moreover have "set_c key val now c =
      (case r of Inl e \<Rightarrow> (Inl e, c2)
       | Inr _ \<Rightarrow> (Inr (), c2\<lparr> map_c := fmupd key (now + ttl c2, val) (map_c c2),
           list_c := list_c c2 @ [(now + ttl c2, key)] \<rparr>))"
    unfolding set_c_def c1_def [symmetric] Let_def rc by simp
  ultimately show ?thesis
    by (cases r) (simp_all add: u)
qed

lemma exec_of: "exec_n (op_of x) (cache_of c) = map_prod id cache_of (exec x c)"
proof (cases x)
  case (Set key val now)
  then show ?thesis by (simp add: set_of split: prod.splits sum.splits)
next
  case (Get key now)
  then show ?thesis by (simp add: get_of split: prod.splits)
next
  case IsFull
  then show ?thesis by simp
next
  case (Scrub now)
  then show ?thesis by (simp add: scrub_of)
next
  case Evict
  then show ?thesis by (simp add: evict_of split: prod.splits sum.splits)
qed

lemma run_of: "run_n (map op_of xs) (cache_of c) = cache_of (run xs c)"
proof (induction xs arbitrary: c)
  case Nil
  then show ?case by simp
next
  case (Cons x xs)
  have "snd (exec_n (op_of x) (cache_of c)) = cache_of (snd (exec x c))"
    by (simp add: exec_of)
  with Cons show ?case by (simp del: exec.simps exec_n.simps)
qed

lemma new_of: "new_n (options_of opts) = map_sum id cache_of (new opts)"
  by (simp add: new_n_def new_def options_of_def cache_of_def ledger_of_def num_of_numeral
      split: option.splits)


lemma ledger_covers_of: "ledger_covers_n (entries_of m) (ledger_of l) = ledger_covers m l"
proof -
  have i: "(num_of e, k) \<in> set (ledger_of l) \<longleftrightarrow> (e, k) \<in> set l" for e k
    by (force simp: ledger_of_def num_of_def)
  have n: "num_of e \<noteq> NaN" for e
    by (simp add: num_of_def)
  have "ledger_covers_n (entries_of m) (ledger_of l) \<longleftrightarrow>
      (\<forall>k e v. fmlookup m k = Some (e, v) \<longrightarrow> (num_of e, k) \<in> set (ledger_of l))"
    unfolding ledger_covers_iff_n by (auto simp: n)
  then show ?thesis
    by (simp add: i ledger_covers_iff)
qed

section \<open>Properties on numbers\<close>

text \<open>
  C1 (capacity invariant), as the code has it. The constructor takes any \<open>capacity > 0\<close>,
  and the claim as stated fails for one that is not an integer: \<open>isFull\<close> is false while
  \<open>map.size < capacity\<close>, and \<open>set\<close> then adds an entry. A cache is constructed with
  \<open>ttl > 0\<close> and \<open>capacity > 0\<close>; after any finite sequence of calls (\<open>set\<close> and \<open>get\<close>,
  and also \<open>isFull\<close>, \<open>scrub\<close> and \<open>evict\<close>, with any keys, values and times, invalid
  dates too) and a call of \<open>set\<close>, returning or throwing, the map holds fewer than
  \<open>capacity + 1\<close> entries: at most \<open>capacity\<close> when \<open>capacity\<close> is an integer.
\<close>

theorem capacity_invariant:
  fixes opts :: options_n and ops :: "'v op_n list"
  assumes "Num 0 < ttl_opt opts" and "Num 0 < capacity_opt opts"
  shows "\<exists>c0. new_n opts = Inr c0 \<and>
           Num (of_nat (map_size_n (map_n (run_n (ops @ [Set_n key val now]) c0))))
             < capacity_opt opts + Num 1 \<and>
           (capacity_opt opts = Num (of_int n) \<longrightarrow>
              int (map_size_n (map_n (run_n (ops @ [Set_n key val now]) c0))) \<le> n)"
proof -
  obtain c0 :: "'v cache_n" where c0: "new_n opts = Inr c0"
    using assms by (simp add: new_n_def)
  have cap: "capacity_n c0 = capacity_opt opts" using new_Inr_n [OF c0] by simp
  have b: "Num (of_nat (map_size_n (map_n (run_n (ops @ [Set_n key val now]) c0))))
      < capacity_opt opts + Num 1"
    using run_size_n [OF new_size_n [OF c0], of "ops @ [Set_n key val now]"] by (simp only: cap)
  then have "capacity_opt opts = Num (of_int n) \<longrightarrow>
      int (map_size_n (map_n (run_n (ops @ [Set_n key val now]) c0))) \<le> n"
    using within_int by auto
  with c0 b show ?thesis by blast
qed

theorem capacity_invariant_witness:
  "int (map_size_n (map_n (run_n
      ([Set_n ''a'' (Some (1::nat)) (Num 0), Get_n ''a'' (Num 1), Set_n ''b'' (Some 2) NaN,
        Set_n ''c'' (Some 3) (Num 3)] @ [Set_n ''d'' (Some 4) (Num 4)])
      \<lparr> ttl_n = Num 60000, capacity_n = Num 3, interval_n = Num 10000, last_n = None,
        map_n = fmempty, list_n = [] \<rparr>))) \<le> 3"
proof -
  let ?opts = "\<lparr> ttl_opt = Num 60000, capacity_opt = Num 3, interval_opt = None \<rparr>"
  have t: "Num 0 < ttl_opt ?opts" and c: "Num 0 < capacity_opt ?opts" by simp_all
  have i: "capacity_opt ?opts = Num (of_int 3)" by simp
  from capacity_invariant [OF t c, of "[Set_n ''a'' (Some (1::nat)) (Num 0), Get_n ''a'' (Num 1),
      Set_n ''b'' (Some 2) NaN, Set_n ''c'' (Some 3) (Num 3)]" "''d''" "Some 4" "Num 4" 3] i
  show ?thesis by (simp add: new_n_def del: run_n.simps)
qed

text \<open>
  C1 as stated fails for \<open>capacity\<close> 1/2 and for \<open>capacity\<close> 5/2: the constructor accepts
  both; one \<open>set\<close> leaves one entry in the map of the first cache, three \<open>set\<close>s of
  distinct keys leave three in the map of the second.
\<close>

theorem capacity_invariant_counterexample:
  "new_n \<lparr> ttl_opt = Num 60000, capacity_opt = Num (1 / 2), interval_opt = None \<rparr> =
     Inr \<lparr> ttl_n = Num 60000, capacity_n = Num (1 / 2), interval_n = Num 10000,
           last_n = None, map_n = (fmempty :: nat entries_n), list_n = [] \<rparr> \<and>
   fst (exec_n (Set_n ''a'' (Some (1::nat)) (Num 0))
      \<lparr> ttl_n = Num 60000, capacity_n = Num (1 / 2), interval_n = Num 10000,
        last_n = None, map_n = fmempty, list_n = [] \<rparr>) = Inr Self \<and>
   map_size_n (map_n (run_n [Set_n ''a'' (Some (1::nat)) (Num 0)]
      \<lparr> ttl_n = Num 60000, capacity_n = Num (1 / 2), interval_n = Num 10000,
        last_n = None, map_n = fmempty, list_n = [] \<rparr>)) = 1 \<and>
   \<not> Num (of_nat 1) \<le> Num (1 / 2) \<and>
   map_size_n (map_n (run_n [Set_n ''a'' (Some (1::nat)) (Num 0),
        Set_n ''b'' (Some 2) (Num 0), Set_n ''c'' (Some 3) (Num 0)]
      \<lparr> ttl_n = Num 60000, capacity_n = Num (5 / 2), interval_n = Num 10000,
        last_n = None, map_n = fmempty, list_n = [] \<rparr>)) = 3 \<and>
   \<not> Num (of_nat 3) \<le> Num (5 / 2)"
  by code_simp

text \<open>
  C8 (map and ledger correspond), as the code has it. The claim as stated fails when
  \<open>set\<close> is given an invalid \<open>Date\<close>: the expiration stored is \<open>NaN\<close>, which no ledger
  entry matches by \<open>===\<close>, and \<open>evict\<close> then walks past the end of the ledger. The empty
  cache of the constructor has every map entry \<open>key \<mapsto> (expiration, value)\<close> matched by a
  ledger entry \<open>(expiration, key)\<close>. Every call keeps it so, returning or throwing, but
  \<open>set\<close> with an invalid \<open>Date\<close>; \<open>get\<close>, \<open>scrub\<close> and \<open>evict\<close> keep it at any time.
  Inside the loop of \<open>evict\<close> the matching ledger entries lie in the part of the list not
  yet walked. So on a cache with that correspondence and a positive capacity, in
  particular on every cache reached from the constructor by calls that give \<open>set\<close> valid
  dates only, \<open>evict\<close> never reads past the end of the list: it returns, and leaves the
  map not full and the correspondence intact.
\<close>

theorem ledger_correspondence:
  fixes c c0 :: "'v cache_n"
  shows "(new_n opts = Inr c0 \<longrightarrow>
            ledger_covers_n (map_n c0) (list_n c0) \<and>
            ((\<forall>k v. Set_n k v NaN \<notin> set ops) \<longrightarrow>
             ledger_covers_n (map_n (run_n ops c0)) (list_n (run_n ops c0)) \<and>
             (\<exists>c'. evict_n (run_n ops c0) = (Inr (), c') \<and> \<not> isFull_n c' \<and>
                ledger_covers_n (map_n c') (list_n c')))) \<and>
         (ledger_covers_n (map_n c) (list_n c) \<and> ttl_n c \<noteq> NaN \<and>
          (\<forall>k v. x \<noteq> Set_n k v NaN) \<longrightarrow>
            ledger_covers_n (map_n (snd (exec_n x c))) (list_n (snd (exec_n x c)))) \<and>
         (ledger_covers_n (map_n c) l \<and> Num 0 < capacity_n c \<longrightarrow>
            (\<exists>c' rest. evict_loop_n c l = (c', Some rest) \<and> \<not> isFull_n c' \<and>
               ledger_covers_n (map_n c') rest)) \<and>
         (ledger_covers_n (map_n c) (list_n c) \<and> Num 0 < capacity_n c \<longrightarrow>
            (\<exists>c'. evict_n c = (Inr (), c') \<and> \<not> isFull_n c' \<and>
               ledger_covers_n (map_n c') (list_n c')))"
proof (intro conjI impI)
  assume n: "new_n opts = Inr c0"
  show "ledger_covers_n (map_n c0) (list_n c0)" using n by (rule new_covers_n)
next
  assume n: "new_n opts = Inr c0" and v: "\<forall>k v. Set_n k v NaN \<notin> set ops"
  have t: "ttl_n c0 \<noteq> NaN" using new_Inr_n [OF n] by auto
  show r: "ledger_covers_n (map_n (run_n ops c0)) (list_n (run_n ops c0))"
    using new_covers_n [OF n] t v by (rule run_covers_n)
  have "Num 0 < capacity_n (run_n ops c0)"
    using new_Inr_n [OF n] by (auto simp: run_capacity_n)
  with r show "\<exists>c'. evict_n (run_n ops c0) = (Inr (), c') \<and> \<not> isFull_n c' \<and>
      ledger_covers_n (map_n c') (list_n c')"
    by (rule evict_ok_n)
next
  assume "ledger_covers_n (map_n c) (list_n c) \<and> ttl_n c \<noteq> NaN \<and>
      (\<forall>k v. x \<noteq> Set_n k v NaN)"
  then show "ledger_covers_n (map_n (snd (exec_n x c))) (list_n (snd (exec_n x c)))"
    using exec_covers_n [of c x] by blast
next
  assume "ledger_covers_n (map_n c) l \<and> Num 0 < capacity_n c"
  then show "\<exists>c' rest. evict_loop_n c l = (c', Some rest) \<and> \<not> isFull_n c' \<and>
      ledger_covers_n (map_n c') rest"
    using evict_loop_ok_n [of c l] by blast
next
  assume "ledger_covers_n (map_n c) (list_n c) \<and> Num 0 < capacity_n c"
  then show "\<exists>c'. evict_n c = (Inr (), c') \<and> \<not> isFull_n c' \<and>
      ledger_covers_n (map_n c') (list_n c')"
    using evict_ok_n [of c] by blast
qed

theorem ledger_correspondence_witness:
  "new_n \<lparr> ttl_opt = Num 10, capacity_opt = Num 2, interval_opt = None \<rparr> =
     Inr \<lparr> ttl_n = Num 10, capacity_n = Num 2, interval_n = Num 10000, last_n = None,
           map_n = (fmempty :: nat entries_n), list_n = [] \<rparr> \<and>
   (\<exists>c'. evict_n (run_n [Set_n ''a'' (Some (1::nat)) (Num 0), Set_n ''b'' (Some 2) (Num 1),
               Get_n ''b'' NaN, Set_n ''a'' (Some 3) (Num 2)]
             \<lparr> ttl_n = Num 10, capacity_n = Num 2, interval_n = Num 10000, last_n = None,
               map_n = fmempty, list_n = [] \<rparr>) = (Inr (), c') \<and> \<not> isFull_n c') \<and>
   ledger_covers_n (fmupd ''b'' (Num 11, Some (2::nat)) (fmupd ''a'' (Num 12, Some 3) fmempty))
     [(Num 10, ''a''), (Num 11, ''b''), (Num 12, ''a'')] \<and>
   ledger_covers_n
     (map_n (snd (exec_n (Set_n ''c'' (Some 4) (Num 11))
        \<lparr> ttl_n = Num 10, capacity_n = Num 2, interval_n = Num 10000, last_n = None,
          map_n = fmupd ''b'' (Num 11, Some (2::nat)) (fmupd ''a'' (Num 12, Some 3) fmempty),
          list_n = [(Num 10, ''a''), (Num 11, ''b''), (Num 12, ''a'')] \<rparr>)))
     (list_n (snd (exec_n (Set_n ''c'' (Some 4) (Num 11))
        \<lparr> ttl_n = Num 10, capacity_n = Num 2, interval_n = Num 10000, last_n = None,
          map_n = fmupd ''b'' (Num 11, Some (2::nat)) (fmupd ''a'' (Num 12, Some 3) fmempty),
          list_n = [(Num 10, ''a''), (Num 11, ''b''), (Num 12, ''a'')] \<rparr>))) \<and>
   (\<exists>c'. evict_n
        \<lparr> ttl_n = Num 10, capacity_n = Num 2, interval_n = Num 10000, last_n = None,
          map_n = fmupd ''b'' (Num 11, Some (2::nat)) (fmupd ''a'' (Num 12, Some 3) fmempty),
          list_n = [(Num 10, ''a''), (Num 11, ''b''), (Num 12, ''a'')] \<rparr> = (Inr (), c') \<and>
      \<not> isFull_n c')"
proof -
  let ?opts = "\<lparr> ttl_opt = Num 10, capacity_opt = Num 2, interval_opt = None \<rparr>"
  let ?empty = "\<lparr> ttl_n = Num 10, capacity_n = Num 2, interval_n = Num 10000, last_n = None,
                  map_n = (fmempty :: nat entries_n), list_n = [] \<rparr>"
  let ?full = "\<lparr> ttl_n = Num 10, capacity_n = Num 2, interval_n = Num 10000, last_n = None,
      map_n = fmupd ''b'' (Num 11, Some (2::nat)) (fmupd ''a'' (Num 12, Some 3) fmempty),
      list_n = [(Num 10, ''a''), (Num 11, ''b''), (Num 12, ''a'')] \<rparr>"
  let ?ops = "[Set_n ''a'' (Some (1::nat)) (Num 0), Set_n ''b'' (Some 2) (Num 1),
      Get_n ''b'' NaN, Set_n ''a'' (Some 3) (Num 2)]"
  have n: "new_n ?opts = Inr ?empty" by (simp add: new_n_def)
  have v: "\<forall>k v. Set_n k v NaN \<notin> set ?ops" by simp
  have l: "ledger_covers_n (map_n ?full) (list_n ?full)" by code_simp
  have p: "Num 0 < capacity_n ?full" and t: "ttl_n ?full \<noteq> NaN" by simp_all
  have x: "\<forall>k v. Set_n ''c'' (Some 4) (Num 11) \<noteq> Set_n k v NaN" by simp
  note r = ledger_correspondence [of ?opts ?empty ?ops ?full "Set_n ''c'' (Some 4) (Num 11)"
      "list_n ?full"]
  have 1: "\<exists>c'. evict_n (run_n ?ops ?empty) = (Inr (), c') \<and> \<not> isFull_n c'"
    using r n v by blast
  have 2: "ledger_covers_n
      (map_n (snd (exec_n (Set_n ''c'' (Some 4) (Num 11)) ?full)))
      (list_n (snd (exec_n (Set_n ''c'' (Some 4) (Num 11)) ?full)))"
    using r l t x by blast
  have 3: "\<exists>c'. evict_n ?full = (Inr (), c') \<and> \<not> isFull_n c'"
    using r l p by blast
  show ?thesis using n l 1 2 3 by (simp del: run_n.simps exec_n.simps)
qed

text \<open>
  C8 as stated fails after \<open>set('a', 1, new Date(NaN))\<close> on a cache with capacity 1 and
  \<open>ttl\<close> 10: the map holds \<open>'a'\<close> with expiration \<open>NaN\<close>, which the ledger entry
  \<open>(NaN, 'a')\<close> does not match, and \<open>evict\<close> throws with the map still full.
\<close>

theorem ledger_correspondence_counterexample:
  "fst (exec_n (Set_n ''a'' (Some (1::nat)) NaN)
      \<lparr> ttl_n = Num 10, capacity_n = Num 1, interval_n = Num 10000, last_n = None,
        map_n = fmempty, list_n = [] \<rparr>) = Inr Self \<and>
   fmlookup (map_n (run_n [Set_n ''a'' (Some (1::nat)) NaN]
      \<lparr> ttl_n = Num 10, capacity_n = Num 1, interval_n = Num 10000, last_n = None,
        map_n = fmempty, list_n = [] \<rparr>)) ''a'' = Some (NaN, Some 1) \<and>
   list_n (run_n [Set_n ''a'' (Some (1::nat)) NaN]
      \<lparr> ttl_n = Num 10, capacity_n = Num 1, interval_n = Num 10000, last_n = None,
        map_n = fmempty, list_n = [] \<rparr>) = [(NaN, ''a'')] \<and>
   \<not> ledger_covers_n
      (map_n (run_n [Set_n ''a'' (Some (1::nat)) NaN]
        \<lparr> ttl_n = Num 10, capacity_n = Num 1, interval_n = Num 10000, last_n = None,
          map_n = fmempty, list_n = [] \<rparr>))
      (list_n (run_n [Set_n ''a'' (Some (1::nat)) NaN]
        \<lparr> ttl_n = Num 10, capacity_n = Num 1, interval_n = Num 10000, last_n = None,
          map_n = fmempty, list_n = [] \<rparr>)) \<and>
   fst (evict_n (run_n [Set_n ''a'' (Some (1::nat)) NaN]
      \<lparr> ttl_n = Num 10, capacity_n = Num 1, interval_n = Num 10000, last_n = None,
        map_n = fmempty, list_n = [] \<rparr>)) = Inl AssertionError \<and>
   isFull_n (snd (evict_n (run_n [Set_n ''a'' (Some (1::nat)) NaN]
      \<lparr> ttl_n = Num 10, capacity_n = Num 1, interval_n = Num 10000, last_n = None,
        map_n = fmempty, list_n = [] \<rparr>)))"
  by code_simp

text \<open>
  C9 (errors only at construction), as the code has it. The claim as stated fails for
  \<open>NaN\<close>: the constructor throws for a \<open>ttl\<close> or \<open>capacity\<close> that is \<open>NaN\<close>, which is not
  \<open>\<le> 0\<close>, and after a \<open>set\<close> with an invalid \<open>Date\<close> a later \<open>set\<close> throws. The
  constructor throws when \<open>ttl \<le> 0\<close> or \<open>capacity \<le> 0\<close> or one of them is \<open>NaN\<close>;
  otherwise \<open>ttl > 0\<close> and \<open>capacity > 0\<close>, and it returns a cache with the given \<open>ttl\<close>
  and \<open>capacity\<close>, an empty map and ledger, and \<open>interval\<close> 10000 when none is given. On
  a cache reached from the constructor, in a sequence of calls that gives \<open>set\<close> valid
  dates only, every call (\<open>set\<close>, \<open>get\<close>, \<open>isFull\<close>, \<open>scrub\<close>, \<open>evict\<close>) returns without
  throwing, and \<open>get\<close> of a key that the map does not hold returns \<open>undefined\<close>.
\<close>

theorem errors_only_at_construction:
  fixes c0 :: "'v cache_n"
  shows "(ttl_opt opts \<le> Num 0 \<or> capacity_opt opts \<le> Num 0 \<or>
          ttl_opt opts = NaN \<or> capacity_opt opts = NaN \<longrightarrow>
            (new_n opts :: error + 'v cache_n) = Inl AssertionError) \<and>
         (\<not> (ttl_opt opts \<le> Num 0 \<or> capacity_opt opts \<le> Num 0 \<or>
             ttl_opt opts = NaN \<or> capacity_opt opts = NaN) \<longrightarrow>
            (\<exists>c :: 'v cache_n. new_n opts = Inr c \<and> ttl_n c = ttl_opt opts \<and>
               capacity_n c = capacity_opt opts \<and>
               interval_n c = (case interval_opt opts of None \<Rightarrow> Num 10000 | Some i \<Rightarrow> i) \<and>
               last_n c = None \<and> map_n c = fmempty \<and> list_n c = [])) \<and>
         (new_n opts = Inr c0 \<and> (\<forall>k v. Set_n k v NaN \<notin> set (ops @ [x])) \<longrightarrow>
            (\<exists>r. fst (exec_n x (run_n ops c0)) = Inr r)) \<and>
         (fmlookup (map_n c) key = None \<longrightarrow> fst (exec_n (Get_n key now) c) = Inr (Got None))"
proof (intro conjI impI)
  assume "ttl_opt opts \<le> Num 0 \<or> capacity_opt opts \<le> Num 0 \<or>
      ttl_opt opts = NaN \<or> capacity_opt opts = NaN"
  then show "(new_n opts :: error + 'v cache_n) = Inl AssertionError"
    by (cases "ttl_opt opts"; cases "capacity_opt opts") (auto simp: new_n_def)
next
  assume "\<not> (ttl_opt opts \<le> Num 0 \<or> capacity_opt opts \<le> Num 0 \<or>
      ttl_opt opts = NaN \<or> capacity_opt opts = NaN)"
  then have "Num 0 < ttl_opt opts" "Num 0 < capacity_opt opts"
    using number_cases3 [of "ttl_opt opts"] number_cases3 [of "capacity_opt opts"] by auto
  then show "\<exists>c :: 'v cache_n. new_n opts = Inr c \<and> ttl_n c = ttl_opt opts \<and>
      capacity_n c = capacity_opt opts \<and>
      interval_n c = (case interval_opt opts of None \<Rightarrow> Num 10000 | Some i \<Rightarrow> i) \<and>
      last_n c = None \<and> map_n c = fmempty \<and> list_n c = []"
    by (simp add: new_n_def)
next
  assume a: "new_n opts = Inr c0 \<and> (\<forall>k v. Set_n k v NaN \<notin> set (ops @ [x]))"
  then have n: "new_n opts = Inr c0" and v: "\<forall>k v. Set_n k v NaN \<notin> set ops" by auto
  have "ttl_n c0 \<noteq> NaN" using new_Inr_n [OF n] by auto
  with new_covers_n [OF n]
  have "ledger_covers_n (map_n (run_n ops c0)) (list_n (run_n ops c0))"
    using v by (rule run_covers_n)
  moreover have "Num 0 < capacity_n (run_n ops c0)"
    using new_Inr_n [OF n] by (auto simp: run_capacity_n)
  ultimately show "\<exists>r. fst (exec_n x (run_n ops c0)) = Inr r" by (rule exec_ok_n)
next
  assume m: "fmlookup (map_n c) key = None"
  have "fmlookup (map_n (scrub_n now c)) key = None"
  proof (cases "fmlookup (map_n (scrub_n now c)) key")
    case (Some y)
    then show ?thesis using scrub_lookup_sub_n [of now c key y] m by simp
  qed simp
  then show "fst (exec_n (Get_n key now) c) = Inr (Got None)"
    by (simp add: get_n_def Let_def)
qed

theorem errors_only_at_construction_witness:
  "(new_n \<lparr> ttl_opt = Num 0, capacity_opt = Num 1000, interval_opt = None \<rparr>
      :: error + nat cache_n) = Inl AssertionError \<and>
   (new_n \<lparr> ttl_opt = Num 1, capacity_opt = NaN, interval_opt = None \<rparr>
      :: error + nat cache_n) = Inl AssertionError \<and>
   (\<exists>c :: nat cache_n. new_n \<lparr> ttl_opt = Num 1, capacity_opt = Num 1000, interval_opt = None \<rparr> =
      Inr c \<and> interval_n c = Num 10000 \<and> map_n c = fmempty \<and> list_n c = []) \<and>
   (\<exists>r. fst (exec_n (Set_n ''c'' (Some 3) (Num 10))
      (run_n [Set_n ''a'' (Some (1::nat)) (Num 0), Set_n ''b'' (Some 2) (Num 0)]
        \<lparr> ttl_n = Num 1, capacity_n = Num 1000, interval_n = Num 10000, last_n = None,
          map_n = fmempty, list_n = [] \<rparr>)) = Inr r) \<and>
   fst (exec_n (Get_n ''c'' (Num 10))
      (run_n [Set_n ''a'' (Some (1::nat)) (Num 0), Set_n ''b'' (Some 2) (Num 0)]
        \<lparr> ttl_n = Num 1, capacity_n = Num 1000, interval_n = Num 10000, last_n = None,
          map_n = fmempty, list_n = [] \<rparr>)) = Inr (Got None)"
proof -
  let ?bad = "\<lparr> ttl_opt = Num 0, capacity_opt = Num 1000, interval_opt = None \<rparr>"
  let ?nan = "\<lparr> ttl_opt = Num 1, capacity_opt = NaN, interval_opt = None \<rparr>"
  let ?good = "\<lparr> ttl_opt = Num 1, capacity_opt = Num 1000, interval_opt = None \<rparr>"
  let ?empty = "\<lparr> ttl_n = Num 1, capacity_n = Num 1000, interval_n = Num 10000, last_n = None,
                  map_n = (fmempty :: nat entries_n), list_n = [] \<rparr>"
  let ?ops = "[Set_n ''a'' (Some (1::nat)) (Num 0), Set_n ''b'' (Some 2) (Num 0)]"
  have bad: "ttl_opt ?bad \<le> Num 0" by simp
  have nan: "capacity_opt ?nan = NaN" by simp
  have good: "\<not> (ttl_opt ?good \<le> Num 0 \<or> capacity_opt ?good \<le> Num 0 \<or>
      ttl_opt ?good = NaN \<or> capacity_opt ?good = NaN)"
    by simp
  have n: "new_n ?good = Inr ?empty" by (simp add: new_n_def)
  have v: "\<forall>k v. Set_n k v NaN \<notin> set (?ops @ [Set_n ''c'' (Some 3) (Num 10)])" by simp
  have miss: "fmlookup (map_n (run_n ?ops ?empty)) ''c'' = None" by code_simp
  have 1: "(new_n ?bad :: error + nat cache_n) = Inl AssertionError"
    using errors_only_at_construction [of ?bad] bad by blast
  have 2: "(new_n ?nan :: error + nat cache_n) = Inl AssertionError"
    using errors_only_at_construction [of ?nan] nan by blast
  note r = errors_only_at_construction [of ?good ?empty ?ops "Set_n ''c'' (Some 3) (Num 10)"
      "run_n ?ops ?empty" "''c''" "Num 10"]
  have 3: "\<exists>c :: nat cache_n. new_n ?good = Inr c \<and> interval_n c = Num 10000 \<and>
      map_n c = fmempty \<and> list_n c = []"
    using r good by (simp del: run_n.simps exec_n.simps) blast
  have 4: "\<exists>r. fst (exec_n (Set_n ''c'' (Some 3) (Num 10)) (run_n ?ops ?empty)) = Inr r"
    using r n v by blast
  have 5: "fst (exec_n (Get_n ''c'' (Num 10)) (run_n ?ops ?empty)) = Inr (Got None)"
    using r miss by blast
  show ?thesis using 1 2 3 4 5 by blast
qed

text \<open>
  C9 as stated fails for \<open>NaN\<close>. The constructor throws for \<open>ttl = NaN\<close> and
  \<open>capacity = 1\<close>, where neither is \<open>\<le> 0\<close>. On the cache constructed with \<open>ttl\<close> 10 and
  capacity 1, \<open>set('a', 1, new Date(NaN))\<close> returns and \<open>set('b', 2, new Date(0))\<close>
  then throws \<open>AssertionError\<close>.
\<close>

theorem errors_only_at_construction_counterexample:
  "(new_n \<lparr> ttl_opt = NaN, capacity_opt = Num 1, interval_opt = None \<rparr>
      :: error + nat cache_n) = Inl AssertionError \<and>
   \<not> NaN \<le> Num 0 \<and> \<not> Num 1 \<le> Num 0 \<and>
   new_n \<lparr> ttl_opt = Num 10, capacity_opt = Num 1, interval_opt = None \<rparr> =
     Inr \<lparr> ttl_n = Num 10, capacity_n = Num 1, interval_n = Num 10000, last_n = None,
           map_n = (fmempty :: nat entries_n), list_n = [] \<rparr> \<and>
   fst (exec_n (Set_n ''a'' (Some (1::nat)) NaN)
      \<lparr> ttl_n = Num 10, capacity_n = Num 1, interval_n = Num 10000, last_n = None,
        map_n = fmempty, list_n = [] \<rparr>) = Inr Self \<and>
   fst (exec_n (Set_n ''b'' (Some 2) (Num 0))
      (run_n [Set_n ''a'' (Some (1::nat)) NaN]
        \<lparr> ttl_n = Num 10, capacity_n = Num 1, interval_n = Num 10000, last_n = None,
          map_n = fmempty, list_n = [] \<rparr>)) = Inl AssertionError"
  by code_simp

end
